theory Spec2Isabelle
  imports Complex_Main "HOL-Library.Word" "HOL-Library.AList"
begin

section \<open>Values, errors and decimal text\<close>

text \<open>
  Go's \<open>uint64\<close> and \<open>int64\<close> (and \<open>int\<close> on a 64-bit platform) are 64-bit words:
  \<open>+\<close> and \<open>-\<close> wrap, \<open>unat\<close> reads a word as unsigned and \<open>sint\<close> as two's
  complement. A value of type \<open>interface{}\<close> is \<open>None\<close> when it is \<open>nil\<close> and
  otherwise carries a dynamic value; a Go \<open>error\<close> is \<open>None\<close> when it is \<open>nil\<close>.
\<close>

type_synonym u64 = "64 word"
type_synonym i64 = "64 word"

datatype val = VStr string | VInt int

type_synonym iface = "val option"

datatype err =
    RedisNil        \<comment> \<open>\<open>redis.Nil\<close>: the key does not exist\<close>
  | ConnErr         \<comment> \<open>the round trip to the store failed\<close>
  | NotInteger      \<comment> \<open>the store: value is not an integer or out of range\<close>
  | WouldOverflow   \<comment> \<open>the store: increment or decrement would overflow\<close>
  | InvalidExpire   \<comment> \<open>the store: invalid expire time\<close>
  | ErrParse        \<comment> \<open>\<open>strconv\<close>: invalid syntax or value out of range\<close>
  | NoStatistics    \<comment> \<open>"no statistics available for the given key"\<close>

definition digit_char :: "nat \<Rightarrow> char" where
  "digit_char d = char_of (48 + d)"

fun show_nat :: "nat \<Rightarrow> string" where
  "show_nat n = (if n < 10 then [digit_char n] else show_nat (n div 10) @ [digit_char (n mod 10)])"

definition show_int :: "int \<Rightarrow> string" where
  "show_int i = (if i < 0 then CHR ''-'' # show_nat (nat (- i)) else show_nat (nat i))"

definition is_digit :: "char \<Rightarrow> bool" where
  "is_digit c = (48 \<le> (of_char c :: nat) \<and> (of_char c :: nat) \<le> 57)"

definition digit_val :: "char \<Rightarrow> nat" where
  "digit_val c = of_char c - 48"

definition parse_digits :: "string \<Rightarrow> nat option" where
  "parse_digits ds =
     (if ds \<noteq> [] \<and> list_all is_digit ds
      then Some (foldl (\<lambda>n c. 10 * n + digit_val c) 0 ds) else None)"

text \<open>
  \<open>strconv.ParseInt(s, 10, 64)\<close>, which \<open>strconv.Atoi\<close> (64-bit \<open>int\<close>) and go-redis'
  \<open>Int64()\<close> both compute: an optional sign, then one or more decimal digits, and the
  value must fit in 64 bits.
\<close>

definition parse_int64 :: "string \<Rightarrow> err + i64" where
  "parse_int64 s =
     (let (neg, ds) =
        (case s of
           [] \<Rightarrow> (False, [])
         | c # cs \<Rightarrow>
             if c = CHR ''-'' then (True, cs)
             else if c = CHR ''+'' then (False, cs)
             else (False, s))
      in case parse_digits ds of
           None \<Rightarrow> Inl ErrParse
         | Some n \<Rightarrow>
             if neg then (if n \<le> 2 ^ 63 then Inr (word_of_int (- int n)) else Inl ErrParse)
             else (if n < 2 ^ 63 then Inr (word_of_nat n) else Inl ErrParse))"

definition Atoi :: "string \<Rightarrow> err + i64" where
  "Atoi s = parse_int64 s"

section \<open>The key-value store\<close>

text \<open>
  Modelled from the spec: the external key-value store behind the go-redis client
  (section 6 of the specification: \<open>Get\<close>, \<open>Set\<close>, \<open>SetIfAbsent\<close> with a TTL,
  \<open>Decrement\<close> and \<open>DecrementBy\<close>, with the contracts of a Redis-compatible store).
  The store keeps a string and an optional time to live under each key; time does not
  pass in the model, so an entry never expires. A value is sent as text: a string as
  itself, an integer in decimal, \<open>nil\<close> as the empty string. The store reads a
  counter only from its canonical decimal form. Every call of the client is one round
  trip, which the environment may fail: \<open>faults\<close> lists, for the round trips to come,
  whether each one fails (beyond the list, none does).
\<close>

text \<open>Modelled from the spec: what the store keeps under a key (section 3: a value with a TTL).\<close>

record entry =
  payload :: string
  expiry :: "int option"

text \<open>Modelled from the spec: the state of the store, with the faults of the round trips to come.\<close>

record store =
  kv :: "string \<rightharpoonup> entry"
  faults :: "bool list"

text \<open>Modelled from the spec: one round trip to the store; \<open>True\<close> when it fails.\<close>

definition round_trip :: "store \<Rightarrow> bool \<times> store" where
  "round_trip s = (case faults s of [] \<Rightarrow> (False, s) | f # fs \<Rightarrow> (f, s\<lparr>faults := fs\<rparr>))"

text \<open>Modelled from the spec: the text the client sends for a value.\<close>

definition render :: "iface \<Rightarrow> string" where
  "render v = (case v of None \<Rightarrow> [] | Some (VStr s) \<Rightarrow> s | Some (VInt i) \<Rightarrow> show_int i)"

text \<open>Modelled from the spec: section 6, \<open>ttl <= 0\<close> means no expiration.\<close>

definition ttl_of :: "int \<Rightarrow> int option" where
  "ttl_of expiration = (if 0 < expiration then Some expiration else None)"

text \<open>Modelled from the spec: the store reads a counter from its canonical decimal form only.\<close>

definition redis_int :: "string \<Rightarrow> int option" where
  "redis_int s =
     (case parse_int64 s of
        Inl e \<Rightarrow> None
      | Inr w \<Rightarrow> if show_int (sint w) = s then Some (sint w) else None)"

text \<open>
  Modelled from the spec: \<open>SetIfAbsent(key, value, ttl) -> bool\<close>; it never overwrites.
  The store refuses a negative expire time, whether the key is there or not, and then
  changes nothing. The one negative expiration it accepts is \<open>-1\<close>, which the client
  sends as "keep the TTL": a key created that way has none. An expiration of 0 creates
  the key without a TTL.
\<close>

definition cmd_setnx ::
    "(string \<rightharpoonup> entry) \<Rightarrow> string \<Rightarrow> iface \<Rightarrow> int \<Rightarrow> (err + bool) \<times> (string \<rightharpoonup> entry)" where
  "cmd_setnx m key v expiration =
     (if expiration < 0 \<and> expiration \<noteq> - 1 then (Inl InvalidExpire, m)
      else if m key = None
      then (Inr True, m(key \<mapsto> \<lparr>payload = render v, expiry = ttl_of expiration\<rparr>))
      else (Inr False, m))"

text \<open>Modelled from the spec: \<open>DecrementBy(key, n) -> int64\<close>. An absent key counts as 0; a value
  that is not a counter, and a result outside 64 bits, are errors that change nothing.
  The TTL of the key stays.\<close>

definition cmd_decrby :: "(string \<rightharpoonup> entry) \<Rightarrow> string \<Rightarrow> int \<Rightarrow> (err + i64) \<times> (string \<rightharpoonup> entry)" where
  "cmd_decrby m key n =
     (case (case m key of None \<Rightarrow> Some 0 | Some e \<Rightarrow> redis_int (payload e)) of
        None \<Rightarrow> (Inl NotInteger, m)
      | Some cur \<Rightarrow>
          if - (2 ^ 63) \<le> cur - n \<and> cur - n < 2 ^ 63
          then (Inr (word_of_int (cur - n)),
                m(key \<mapsto> \<lparr>payload = show_int (cur - n),
                             expiry = (case m key of None \<Rightarrow> None | Some e \<Rightarrow> expiry e)\<rparr>))
          else (Inl WouldOverflow, m))"

text \<open>Modelled from the spec: \<open>Get(key) -> (string, error)\<close> of the client; the string is
  empty when there is an error, and an absent key is the error \<open>redis.Nil\<close>.\<close>

definition Client_Get :: "store \<Rightarrow> string \<Rightarrow> (string \<times> err option) \<times> store" where
  "Client_Get s key =
     (case round_trip s of
        (True, s') \<Rightarrow> (([], Some ConnErr), s')
      | (False, s') \<Rightarrow>
          (case kv s' key of
             None \<Rightarrow> (([], Some RedisNil), s')
           | Some e \<Rightarrow> ((payload e, None), s')))"

text \<open>Modelled from the spec: \<open>Set(key, value, ttl)\<close> of the client.\<close>

definition Client_Set :: "store \<Rightarrow> string \<Rightarrow> iface \<Rightarrow> int \<Rightarrow> err option \<times> store" where
  "Client_Set s key v expiration =
     (case round_trip s of
        (True, s') \<Rightarrow> (Some ConnErr, s')
      | (False, s') \<Rightarrow>
          (None, s'\<lparr>kv := (kv s')(key \<mapsto> \<lparr>payload = render v, expiry = ttl_of expiration\<rparr>)\<rparr>))"

text \<open>Modelled from the spec: \<open>SetNX\<close> of the client.\<close>

definition Client_SetNX :: "store \<Rightarrow> string \<Rightarrow> iface \<Rightarrow> int \<Rightarrow> (err + bool) \<times> store" where
  "Client_SetNX s key v expiration =
     (case round_trip s of
        (True, s') \<Rightarrow> (Inl ConnErr, s')
      | (False, s') \<Rightarrow>
          (case cmd_setnx (kv s') key v expiration of
             (b, m) \<Rightarrow> (b, s'\<lparr>kv := m\<rparr>)))"

text \<open>Modelled from the spec: \<open>DecrBy\<close> of the client.\<close>

definition Client_DecrBy :: "store \<Rightarrow> string \<Rightarrow> i64 \<Rightarrow> (err + i64) \<times> store" where
  "Client_DecrBy s key decrement =
     (case round_trip s of
        (True, s') \<Rightarrow> (Inl ConnErr, s')
      | (False, s') \<Rightarrow>
          (case cmd_decrby (kv s') key (sint decrement) of
             (r, m) \<Rightarrow> (r, s'\<lparr>kv := m\<rparr>)))"

text \<open>
  Modelled from the spec: a command queued in a pipeline of the client. (Of the
  commands of section 6, the two that the repository queues.)
\<close>

datatype command = SetNX_cmd string iface int | Decr_cmd string

text \<open>Modelled from the spec: the store runs one queued command; \<open>Decrement\<close> is \<open>DecrementBy\<close> 1.\<close>

fun run_command :: "(string \<rightharpoonup> entry) \<Rightarrow> command \<Rightarrow> err option \<times> (string \<rightharpoonup> entry)" where
  "run_command m (SetNX_cmd key v expiration) =
     (case cmd_setnx m key v expiration of
        (Inl e, m') \<Rightarrow> (Some e, m')
      | (Inr b, m') \<Rightarrow> (None, m'))"
| "run_command m (Decr_cmd key) =
     (case cmd_decrby m key 1 of
        (Inl e, m') \<Rightarrow> (Some e, m')
      | (Inr n, m') \<Rightarrow> (None, m'))"

text \<open>
  Modelled from the spec: the store runs the queued commands in order, each of them also
  after an earlier one was refused; the first error among them is the pipeline's.
\<close>

fun run_pipeline :: "(string \<rightharpoonup> entry) \<Rightarrow> command list \<Rightarrow> err option \<times> (string \<rightharpoonup> entry)" where
  "run_pipeline m [] = (None, m)"
| "run_pipeline m (c # cs) =
     (case run_command m c of
        (e, m1) \<Rightarrow>
          (case run_pipeline m1 cs of
             (e', m2) \<Rightarrow> ((case e of Some x \<Rightarrow> Some x | None \<Rightarrow> e'), m2)))"

text \<open>
  Modelled from the spec: \<open>Pipelined\<close> of the client. The queued commands travel in one
  round trip; when it fails, none of them runs.
\<close>

definition Client_Pipelined :: "store \<Rightarrow> command list \<Rightarrow> err option \<times> store" where
  "Client_Pipelined s cmds =
     (case round_trip s of
        (True, s') \<Rightarrow> (Some ConnErr, s')
      | (False, s') \<Rightarrow>
          (case run_pipeline (kv s') cmds of (e, m) \<Rightarrow> (e, s'\<lparr>kv := m\<rparr>)))"

section \<open>The Redis client (internal/adapters/redis.go)\<close>

text \<open>
  A Go function that returns \<open>(v, error)\<close> and is only ever inspected through its
  error returns a sum here: \<open>Inl e\<close> stands for \<open>(0, e)\<close>. \<open>Get\<close> returns the pair
  itself, since its callers look at both parts.
\<close>

definition RedisClient_Get :: "store \<Rightarrow> string \<Rightarrow> (string \<times> err option) \<times> store" where
  "RedisClient_Get r key = Client_Get r key"

definition RedisClient_Set :: "store \<Rightarrow> string \<Rightarrow> iface \<Rightarrow> int \<Rightarrow> err option \<times> store" where
  "RedisClient_Set r key v expiration = Client_Set r key v expiration"

text \<open>
  The callback of \<open>RateLimiter\<close> queues \<open>SetNX\<close> and then \<open>Decr\<close>. A queued command has
  no error before the pipeline is sent, so the early return of the callback is never
  taken and both commands are always queued.
\<close>

definition RedisClient_RateLimiter :: "store \<Rightarrow> string \<Rightarrow> i64 \<Rightarrow> int \<Rightarrow> (err + i64) \<times> store" where
  "RedisClient_RateLimiter r key v expiration =
     (case Client_Pipelined r [SetNX_cmd key (Some (VInt (sint v))) expiration, Decr_cmd key] of
        (Some e, r1) \<Rightarrow> (Inl e, r1)
      | (None, r1) \<Rightarrow>
          (case Client_Get r1 key of
             ((str, Some e), r2) \<Rightarrow> (Inl e, r2)
           | ((str, None), r2) \<Rightarrow> (parse_int64 str, r2)))"

definition RedisClient_CountRateLimiter ::
    "store \<Rightarrow> string \<Rightarrow> i64 \<Rightarrow> i64 \<Rightarrow> int \<Rightarrow> (err + i64) \<times> store" where
  "RedisClient_CountRateLimiter r key v decrement expiration =
     (case Client_SetNX r key (Some (VInt (sint v))) expiration of
        (Inl e, r1) \<Rightarrow> (Inl e, r1)
      | (Inr b, r1) \<Rightarrow>
          (case Client_Get r1 key of
             ((currentValStr, Some e), r2) \<Rightarrow> (Inl e, r2)
           | ((currentValStr, None), r2) \<Rightarrow>
               (case Atoi currentValStr of
                  Inl e \<Rightarrow> (Inl e, r2)
                | Inr currentVal \<Rightarrow>
                    (let newValue = currentVal - decrement in
                     if sint newValue < 0 then (Inr newValue, r2)
                     else (case Client_DecrBy r2 key decrement of
                             (Inl e, r3) \<Rightarrow> (Inl e, r3)
                           | (Inr n, r3) \<Rightarrow> (Inr newValue, r3))))))"

section \<open>The cache driver (internal/adapters)\<close>

text \<open>
  \<open>cacheDriver.Get\<close> returns the client's \<open>(string, error)\<close> as \<open>(interface{}, error)\<close>:
  the string, also the empty one that comes with an error, is boxed into a non-nil
  interface value. \<open>cacheDriver.Set\<close> passes the expiration \<open>-1\<close>.
\<close>

definition cacheDriver_Get :: "store \<Rightarrow> string \<Rightarrow> (iface \<times> err option) \<times> store" where
  "cacheDriver_Get srv key =
     (case RedisClient_Get srv key of ((str, e), srv') \<Rightarrow> ((Some (VStr str), e), srv'))"

definition cacheDriver_Set :: "store \<Rightarrow> string \<Rightarrow> iface \<Rightarrow> err option \<times> store" where
  "cacheDriver_Set srv key v = RedisClient_Set srv key v (- 1)"

section \<open>The statistics counters (pkg/stats.go)\<close>

text \<open>
  A Go map that is iterated is an association list with one entry per key; the order of
  the list stands for the order in which \<open>range\<close> happens to visit the map.
\<close>

record statsMap =
  data :: "(string \<times> u64) list"

definition newStatsMap :: statsMap where
  "newStatsMap = \<lparr>data = []\<rparr>"

definition statsMap_increment :: "statsMap \<Rightarrow> string \<Rightarrow> statsMap" where
  "statsMap_increment sm key =
     (let d = (if map_of (data sm) key = None then AList.update key 0 (data sm) else data sm)
      in sm\<lparr>data := AList.map_entry key (\<lambda>c. c + 1) d\<rparr>)"

definition statsMap_get :: "statsMap \<Rightarrow> string \<Rightarrow> u64" where
  "statsMap_get sm key = (case map_of (data sm) key of Some c \<Rightarrow> c | None \<Rightarrow> 0)"

definition statsMap_getAll :: "statsMap \<Rightarrow> (string \<times> u64) list" where
  "statsMap_getAll sm = fold (\<lambda>(key, c) copy. AList.update key c copy) (data sm) []"

section \<open>The cache (pkg)\<close>

text \<open>
  The store behind the driver is part of the state. The ticker and its stop channel
  only drive the periodic report and are left out.
\<close>

record cache =
  hitStats :: statsMap
  missStats :: statsMap
  hitLatency :: u64
  hitCount :: u64
  RecordStatistics :: bool
  Cache :: store

definition NewCache :: "bool \<Rightarrow> store \<Rightarrow> cache" where
  "NewCache recordStatistics srv =
     \<lparr>hitStats = newStatsMap, missStats = newStatsMap, hitLatency = 0, hitCount = 0,
      RecordStatistics = recordStatistics, Cache = srv\<rparr>"

definition cache_hit :: "cache \<Rightarrow> string \<Rightarrow> cache" where
  "cache_hit c key =
     (if RecordStatistics c then c\<lparr>hitStats := statsMap_increment (hitStats c) key\<rparr> else c)"

definition cache_miss :: "cache \<Rightarrow> string \<Rightarrow> cache" where
  "cache_miss c key =
     (if RecordStatistics c then c\<lparr>missStats := statsMap_increment (missStats c) key\<rparr> else c)"

text \<open>
  \<open>latency\<close> is what \<open>uint64(time.Since(start).Microseconds())\<close> measures for the call.
\<close>

definition cache_Get :: "cache \<Rightarrow> string \<Rightarrow> u64 \<Rightarrow> (iface \<times> err option) \<times> cache" where
  "cache_Get c key latency =
     (case cacheDriver_Get (Cache c) key of
        ((dat, e), srv) \<Rightarrow>
          (let c1 = c\<lparr>Cache := srv\<rparr> in
           if dat = None \<and> e \<noteq> None then ((dat, e), cache_miss c1 key)
           else ((dat, e),
                 (cache_hit c1 key)\<lparr>hitLatency := hitLatency c1 + latency,
                                     hitCount := hitCount c1 + 1\<rparr>)))"

definition cache_Set :: "cache \<Rightarrow> string \<Rightarrow> iface \<Rightarrow> err option \<times> cache" where
  "cache_Set c key v =
     (case cacheDriver_Set (Cache c) key v of (e, srv) \<Rightarrow> (e, c\<lparr>Cache := srv\<rparr>))"

text \<open>
  The producer is a Go closure: it may have effects of its own, so it is a function on
  a state \<open>'p\<close>, and \<open>Wrap\<close> returns that state as the call left it.
\<close>

definition cache_Wrap ::
    "cache \<Rightarrow> string \<Rightarrow> ('p \<Rightarrow> iface \<times> 'p) \<Rightarrow> 'p \<Rightarrow> u64 \<Rightarrow> iface \<times> cache \<times> 'p" where
  "cache_Wrap c key producer p latency =
     (case cache_Get c key latency of
        ((cachedValue, e), c1) \<Rightarrow>
          if e = None \<and> cachedValue \<noteq> None then (cachedValue, c1, p)
          else (case producer p of
                  (result, p') \<Rightarrow>
                    (case cache_Set c1 key result of (e', c2) \<Rightarrow> (result, c2, p'))))"

definition cache_KeyStatistics :: "cache \<Rightarrow> string \<Rightarrow> err + (string \<times> u64) list" where
  "cache_KeyStatistics c key =
     (let hitCount = statsMap_get (hitStats c) key;
          missCount = statsMap_get (missStats c) key
      in if hitCount = 0 \<and> missCount = 0 then Inl NoStatistics
         else Inr [(''hits'', hitCount), (''misses'', missCount)])"

definition set_field ::
    "string \<Rightarrow> string \<Rightarrow> u64 \<Rightarrow> (string \<times> (string \<times> u64) list) list
      \<Rightarrow> (string \<times> (string \<times> u64) list) list" where
  "set_field field key n stats =
     (let stats1 = (if map_of stats key = None then AList.update key [] stats else stats)
      in AList.map_entry key (AList.update field n) stats1)"

definition cache_Statistics :: "cache \<Rightarrow> (string \<times> (string \<times> u64) list) list" where
  "cache_Statistics c =
     (let hits = statsMap_getAll (hitStats c);
          misses = statsMap_getAll (missStats c);
          stats = fold (\<lambda>(key, hitCount). set_field ''hits'' key hitCount) hits []
      in fold (\<lambda>(key, missCount). set_field ''misses'' key missCount) misses stats)"

text \<open>
  The result is a \<open>float64\<close>. The model computes in the reals and takes the rounding
  to \<open>float64\<close> as the parameter \<open>float64\<close>: the conversion of each counter and the
  division round once each. The literal \<open>0.0\<close> is the real number zero.
\<close>

definition cache_AverageHitLatency :: "(real \<Rightarrow> real) \<Rightarrow> cache \<Rightarrow> real" where
  "cache_AverageHitLatency float64 c =
     (if hitCount c = 0 then 0
      else float64 (float64 (real (unat (hitLatency c))) / float64 (real (unat (hitCount c)))))"

section \<open>Runs of operations\<close>

text \<open>
  The operations of a counter map, and those of the cache, applied one after the other.
  The two reads of a counter map leave it as it is. A producer inside a run is a
  closure without state of its own that returns a fixed value.
\<close>

datatype stats_op = Increment string | GetOp string | GetAllOp

fun stats_step :: "statsMap \<Rightarrow> stats_op \<Rightarrow> statsMap" where
  "stats_step sm (Increment key) = statsMap_increment sm key"
| "stats_step sm (GetOp key) = sm"
| "stats_step sm GetAllOp = sm"

definition run_stats :: "stats_op list \<Rightarrow> statsMap \<Rightarrow> statsMap" where
  "run_stats ops sm = fold (\<lambda>x m. stats_step m x) ops sm"

datatype cache_op = OpGet string u64 | OpSet string iface | OpWrap string iface u64

fun cache_step :: "cache \<Rightarrow> cache_op \<Rightarrow> cache" where
  "cache_step c (OpGet key latency) = snd (cache_Get c key latency)"
| "cache_step c (OpSet key v) = snd (cache_Set c key v)"
| "cache_step c (OpWrap key v latency) =
     fst (snd (cache_Wrap c key (\<lambda>p. (v, p)) () latency))"

definition run_cache :: "cache_op list \<Rightarrow> cache \<Rightarrow> cache" where
  "run_cache ops c = fold (\<lambda>x c'. cache_step c' x) ops c"

text \<open>A store whose coming round trips all succeed.\<close>

definition healthy :: "store \<Rightarrow> bool" where
  "healthy s = (True \<notin> set (faults s))"

text \<open>The store holds the counter \<open>n\<close> under \<open>key\<close>, in canonical decimal form.\<close>

definition holds_counter :: "store \<Rightarrow> string \<Rightarrow> i64 \<Rightarrow> bool" where
  "holds_counter s key n = (map_option payload (kv s key) = Some (show_int (sint n)))"

text \<open>The field \<open>stats[key][field]\<close> of nested statistics, if it is there.\<close>

definition stat_field :: "(string \<times> (string \<times> u64) list) list \<Rightarrow> string \<Rightarrow> string \<Rightarrow> u64 option" where
  "stat_field stats key field = (case map_of stats key of None \<Rightarrow> None | Some inner \<Rightarrow> map_of inner field)"

text \<open>A store that holds nothing and whose round trips all succeed.\<close>

definition empty_store :: store where
  "empty_store = \<lparr>kv = Map.empty, faults = []\<rparr>"

text \<open>
  \<open>n\<close> calls of an operation on the store, one after the other: the results in order,
  and the store as the last call left it.
\<close>

fun sequentially :: "nat \<Rightarrow> (store \<Rightarrow> 'a \<times> store) \<Rightarrow> store \<Rightarrow> 'a list \<times> store" where
  "sequentially 0 f r = ([], r)"
| "sequentially (Suc n) f r =
     (case f r of (x, r1) \<Rightarrow> (case sequentially n f r1 of (xs, r2) \<Rightarrow> (x # xs, r2)))"

section \<open>Decimal text: rendering and parsing agree\<close>

declare show_nat.simps [simp del]

lemma digit_val_digit_char: "d < 10 \<Longrightarrow> digit_val (digit_char d) = d"
  by (simp add: digit_val_def digit_char_def)

lemma is_digit_digit_char: "d < 10 \<Longrightarrow> is_digit (digit_char d)"
  by (simp add: is_digit_def digit_char_def)

lemma show_nat_digits: "list_all is_digit (show_nat n)"
proof (induction n rule: show_nat.induct)
  case (1 n)
  show ?case
  proof (cases "n < 10")
    case True
    then show ?thesis by (simp add: show_nat.simps [of n] is_digit_digit_char)
  next
    case False
    with 1 show ?thesis by (simp add: show_nat.simps [of n] is_digit_digit_char)
  qed
qed

lemma show_nat_nonempty: "show_nat n \<noteq> []"
  by (simp add: show_nat.simps [of n])

lemma show_nat_value: "foldl (\<lambda>n c. 10 * n + digit_val c) 0 (show_nat n) = n"
proof (induction n rule: show_nat.induct)
  case (1 n)
  show ?case
  proof (cases "n < 10")
    case True
    then show ?thesis by (simp add: show_nat.simps [of n] digit_val_digit_char)
  next
    case False
    with 1 show ?thesis by (simp add: show_nat.simps [of n] digit_val_digit_char)
  qed
qed

lemma parse_digits_show_nat: "parse_digits (show_nat n) = Some n"
  by (simp add: parse_digits_def show_nat_nonempty show_nat_digits show_nat_value)

lemma show_nat_head: "\<exists>c cs. show_nat n = c # cs \<and> c \<noteq> CHR ''-'' \<and> c \<noteq> CHR ''+''"
proof -
  obtain c cs where e: "show_nat n = c # cs"
    using show_nat_nonempty [of n] by (cases "show_nat n") auto
  have "is_digit c" using show_nat_digits [of n] e by simp
  then have "c \<noteq> CHR ''-'' \<and> c \<noteq> CHR ''+''" by (auto simp: is_digit_def)
  with e show ?thesis by blast
qed

lemma parse_int64_show_int:
  assumes "- (2 ^ 63) \<le> i" and "i < 2 ^ 63"
  shows "parse_int64 (show_int i) = Inr (word_of_int i)"
proof (cases "i < 0")
  case True
  have "nat (- i) \<le> nat (2 ^ 63)" using assms by (intro nat_mono) linarith
  then have "nat (- i) \<le> 2 ^ 63" by simp
  with True show ?thesis
    by (simp add: parse_int64_def show_int_def parse_digits_show_nat)
next
  case False
  obtain c cs where e: "show_nat (nat i) = c # cs" "c \<noteq> CHR ''-''" "c \<noteq> CHR ''+''"
    using show_nat_head by blast
  have p: "parse_digits (c # cs) = Some (nat i)"
    using parse_digits_show_nat [of "nat i"] e by simp
  have "nat i < nat (2 ^ 63)" using assms False by (simp add: nat_less_iff)
  then have "nat i < 2 ^ 63" by simp
  with False e p show ?thesis
    by (simp add: parse_int64_def show_int_def)
qed

lemma sint_in_range: "- (2 ^ 63) \<le> sint (w :: 64 word) \<and> sint w < 2 ^ 63"
  using sint_ge [of w] sint_lt [of w] by simp

lemma sint_of_int_range:
  "- (2 ^ 63) \<le> i \<Longrightarrow> i < 2 ^ 63 \<Longrightarrow> sint (word_of_int i :: 64 word) = i"
  by (simp add: sint_sbintrunc' signed_take_bit_int_eq_self)

lemma redis_int_show_int:
  "- (2 ^ 63) \<le> i \<Longrightarrow> i < 2 ^ 63 \<Longrightarrow> redis_int (show_int i) = Some i"
  by (simp add: redis_int_def parse_int64_show_int sint_of_int_range)

lemma parse_int64_show_sint: "parse_int64 (show_int (sint (w :: 64 word))) = Inr w"
  using parse_int64_show_int [of "sint w"] sint_in_range [of w] by simp

lemma redis_int_show_sint: "redis_int (show_int (sint (w :: 64 word))) = Some (sint w)"
  using redis_int_show_int [of "sint w"] sint_in_range [of w] by simp

section \<open>The counter map\<close>

lemma get_new: "statsMap_get newStatsMap k = 0"
  by (simp add: statsMap_get_def newStatsMap_def)

lemma get_increment_same:
  "statsMap_get (statsMap_increment sm key) key = statsMap_get sm key + 1"
  by (simp add: statsMap_get_def statsMap_increment_def Let_def map_of_map_entry update_conv'
      split: option.splits)

lemma get_increment_other:
  "k \<noteq> key \<Longrightarrow> statsMap_get (statsMap_increment sm key) k = statsMap_get sm k"
  by (simp add: statsMap_get_def statsMap_increment_def Let_def map_of_map_entry update_conv'
      split: option.splits)

lemma keys_increment:
  "fst ` set (data (statsMap_increment sm key)) = insert key (fst ` set (data sm))"
  by (auto simp: statsMap_increment_def Let_def dom_map_entry dom_update map_of_eq_None_iff)

lemma distinct_increment:
  "distinct (map fst (data sm)) \<Longrightarrow> distinct (map fst (data (statsMap_increment sm key)))"
  by (simp add: statsMap_increment_def Let_def distinct_map_entry distinct_update)

lemma get_step:
  "statsMap_get (stats_step sm x) k = statsMap_get sm k + (if x = Increment k then 1 else 0)"
  by (cases x) (auto simp: get_increment_same get_increment_other)

lemma keys_step: "fst ` set (data sm) \<subseteq> fst ` set (data (stats_step sm x))"
  by (cases x) (auto simp: keys_increment)

lemma get_run:
  "statsMap_get (run_stats ops sm) k = statsMap_get sm k + of_nat (count_list ops (Increment k))"
  unfolding run_stats_def
  by (induction ops arbitrary: sm) (auto simp: get_step)

lemma keys_run: "fst ` set (data sm) \<subseteq> fst ` set (data (run_stats ops sm))"
  unfolding run_stats_def
proof (induction ops arbitrary: sm)
  case Nil
  show ?case by simp
next
  case (Cons x ops)
  have "fst ` set (data sm) \<subseteq> fst ` set (data (stats_step sm x))" by (rule keys_step)
  also have "\<dots> \<subseteq> fst ` set (data (fold (\<lambda>x m. stats_step m x) ops (stats_step sm x)))"
    by (rule Cons.IH)
  finally show ?case by simp
qed

lemma unat_get_run:
  assumes "unat (statsMap_get sm k) + count_list ops (Increment k) < 2 ^ 64"
  shows "unat (statsMap_get (run_stats ops sm) k) = unat (statsMap_get sm k) + count_list ops (Increment k)"
proof -
  have "unat (statsMap_get sm k + of_nat (count_list ops (Increment k)))
      = (unat (statsMap_get sm k) + count_list ops (Increment k)) mod 2 ^ 64"
    by (simp add: unat_word_ariths unat_of_nat mod_add_right_eq)
  with assms show ?thesis by (simp add: get_run)
qed

text \<open>
  Claim C9. Under every operation of a counter map (increment, get, getAll) no key is
  ever removed, and the count of a key after a run is its count before plus the number
  of increments of that key in the run; as long as that sum stays below \<open>2 ^ 64\<close>,
  where a \<open>uint64\<close> wraps, the count never decreases. A key that was never
  incremented reads 0, and after \<open>N\<close> increments of a key, however interleaved with
  other operations, get returns exactly \<open>N\<close>.
\<close>

theorem statsMap_invariant:
  "fst ` set (data sm) \<subseteq> fst ` set (data (run_stats ops sm))
   \<and> statsMap_get (run_stats ops sm) k
       = statsMap_get sm k + of_nat (count_list ops (Increment k))
   \<and> (unat (statsMap_get sm k) + count_list ops (Increment k) < 2 ^ 64 \<longrightarrow>
        unat (statsMap_get sm k) \<le> unat (statsMap_get (run_stats ops sm) k))
   \<and> statsMap_get newStatsMap k = 0
   \<and> (count_list ops (Increment k) = 0 \<longrightarrow> statsMap_get (run_stats ops newStatsMap) k = 0)
   \<and> (count_list ops (Increment k) = N \<and> N < 2 ^ 64 \<longrightarrow>
        unat (statsMap_get (run_stats ops newStatsMap) k) = N)"
proof -
  have zero: "statsMap_get newStatsMap k = 0"
    by (simp add: statsMap_get_def newStatsMap_def)
  have mono: "unat (statsMap_get sm k) \<le> unat (statsMap_get (run_stats ops sm) k)"
    if "unat (statsMap_get sm k) + count_list ops (Increment k) < 2 ^ 64"
    using unat_get_run [OF that] by simp
  have never: "statsMap_get (run_stats ops newStatsMap) k = 0"
    if "count_list ops (Increment k) = 0"
    using that by (simp add: get_run zero)
  have exact: "unat (statsMap_get (run_stats ops newStatsMap) k) = N"
    if "count_list ops (Increment k) = N \<and> N < 2 ^ 64"
    using that unat_get_run [of newStatsMap k ops] by (simp add: zero)
  show ?thesis
    using keys_run [of sm ops] get_run [of ops sm k] mono never exact zero by blast
qed

theorem statsMap_invariant_witness:
  "{''a''} \<subseteq> fst ` set (data (run_stats
       [Increment ''b'', GetOp ''a'', Increment ''a'', GetAllOp]
       (statsMap_increment newStatsMap ''a'')))
   \<and> unat (statsMap_get (statsMap_increment newStatsMap ''a'') ''a'')
       \<le> unat (statsMap_get (run_stats [Increment ''b'', GetOp ''a'', Increment ''a'', GetAllOp]
            (statsMap_increment newStatsMap ''a'')) ''a'')
   \<and> statsMap_get (run_stats [Increment ''b'', GetOp ''c'', Increment ''a'', GetAllOp] newStatsMap) ''c'' = 0
   \<and> unat (statsMap_get (run_stats [Increment ''a'', Increment ''b'', GetOp ''a'', Increment ''a'', GetAllOp]
        newStatsMap) ''a'') = 2"
proof -
  have one: "statsMap_get (statsMap_increment newStatsMap ''a'') ''a'' = 1"
    by (simp add: get_increment_same get_new)
  have keys: "fst ` set (data (statsMap_increment newStatsMap ''a'')) = {''a''}"
    by (simp add: keys_increment newStatsMap_def)
  show ?thesis
    using statsMap_invariant [of "statsMap_increment newStatsMap ''a''"
        "[Increment ''b'', GetOp ''a'', Increment ''a'', GetAllOp]" "''a''" 2]
      statsMap_invariant [of newStatsMap
        "[Increment ''b'', GetOp ''c'', Increment ''a'', GetAllOp]" "''c''" 0]
      statsMap_invariant [of newStatsMap
        "[Increment ''a'', Increment ''b'', GetOp ''a'', Increment ''a'', GetAllOp]" "''a''" 2]
    by (simp add: one keys)
qed

section \<open>Statistics of the cache\<close>

lemma keys_getAll_aux:
  "fst ` set (fold (\<lambda>(key, c) copy. AList.update key c copy) xs acc) = fst ` set xs \<union> fst ` set acc"
proof (induction xs arbitrary: acc)
  case Nil
  show ?case by simp
next
  case (Cons x xs)
  obtain a b where x: "x = (a, b)" by (cases x)
  have "fst ` set (fold (\<lambda>(key, c) copy. AList.update key c copy) xs (AList.update a b acc))
      = fst ` set xs \<union> ({a} \<union> fst ` set acc)"
    by (simp add: Cons.IH dom_update)
  then show ?case by (simp add: x)
qed

lemma keys_getAll: "fst ` set (statsMap_getAll sm) = fst ` set (data sm)"
  by (simp add: statsMap_getAll_def keys_getAll_aux)

lemma distinct_getAll_aux:
  "distinct (map fst acc) \<Longrightarrow>
   distinct (map fst (fold (\<lambda>(key, c) copy. AList.update key c copy) xs acc))"
  by (induction xs arbitrary: acc) (auto simp: distinct_update)

lemma distinct_getAll: "distinct (map fst (statsMap_getAll sm))"
  by (simp add: statsMap_getAll_def distinct_getAll_aux)

lemma map_of_getAll_aux:
  "distinct (map fst xs) \<Longrightarrow>
   map_of (fold (\<lambda>(key, c) copy. AList.update key c copy) xs acc) k
     = (case map_of xs k of Some c \<Rightarrow> Some c | None \<Rightarrow> map_of acc k)"
proof (induction xs arbitrary: acc)
  case Nil
  show ?case by simp
next
  case (Cons x xs)
  obtain a b where x: "x = (a, b)" by (cases x)
  from Cons.prems x have d: "distinct (map fst xs)" and na: "a \<notin> fst ` set xs" by auto
  from na have none: "map_of xs a = None" by (simp add: map_of_eq_None_iff)
  show ?case
    using Cons.IH [OF d, of "AList.update a b acc"] none
    by (auto simp: x update_conv' split: option.splits)
qed

lemma map_of_getAll:
  "distinct (map fst (data sm)) \<Longrightarrow> map_of (statsMap_getAll sm) k = map_of (data sm) k"
  by (simp add: statsMap_getAll_def map_of_getAll_aux split: option.splits)

lemma keys_set_field: "fst ` set (set_field f key n st) = insert key (fst ` set st)"
  by (auto simp: set_field_def Let_def dom_map_entry dom_update map_of_eq_None_iff)

lemma stat_field_set_field:
  "stat_field (set_field f key n st) k g
     = (if k = key \<and> g = f then Some n else stat_field st k g)"
  by (auto simp: stat_field_def set_field_def Let_def map_of_map_entry update_conv'
      split: option.splits)

lemma keys_fold_set_field:
  "fst ` set (fold (\<lambda>(key, n). set_field f key n) xs st) = fst ` set xs \<union> fst ` set st"
proof (induction xs arbitrary: st)
  case Nil
  show ?case by simp
next
  case (Cons x xs)
  obtain a b where x: "x = (a, b)" by (cases x)
  have "fst ` set (fold (\<lambda>(key, n). set_field f key n) xs (set_field f a b st))
      = fst ` set xs \<union> insert a (fst ` set st)"
    by (simp add: Cons.IH keys_set_field)
  then show ?case by (simp add: x)
qed

lemma stat_field_fold:
  "distinct (map fst xs) \<Longrightarrow>
   stat_field (fold (\<lambda>(key, n). set_field f key n) xs st) k g
     = (if g = f then (case map_of xs k of Some n \<Rightarrow> Some n | None \<Rightarrow> stat_field st k g)
        else stat_field st k g)"
proof (induction xs arbitrary: st)
  case Nil
  show ?case by simp
next
  case (Cons x xs)
  obtain a b where x: "x = (a, b)" by (cases x)
  from Cons.prems x have d: "distinct (map fst xs)" and na: "a \<notin> fst ` set xs" by auto
  from na have none: "map_of xs a = None" by (simp add: map_of_eq_None_iff)
  show ?case
    using Cons.IH [OF d, of "set_field f a b st"] none
    by (auto simp: x stat_field_set_field split: option.splits)
qed

lemma stat_field_Nil: "stat_field [] k g = None"
  by (simp add: stat_field_def)

lemma stat_field_Statistics:
  "stat_field (cache_Statistics c) k g
     = (if g = ''misses'' then map_of (statsMap_getAll (missStats c)) k
        else if g = ''hits'' then map_of (statsMap_getAll (hitStats c)) k
        else None)"
  by (simp add: cache_Statistics_def Let_def stat_field_fold distinct_getAll stat_field_Nil
      split: option.splits)

lemma keys_Statistics:
  "fst ` set (cache_Statistics c) = fst ` set (data (hitStats c)) \<union> fst ` set (data (missStats c))"
  by (auto simp: cache_Statistics_def Let_def keys_fold_set_field keys_getAll)


lemma field_present_iff:
  "map_of (statsMap_getAll sm) k \<noteq> None \<longleftrightarrow> k \<in> fst ` set (data sm)"
  by (simp add: map_of_eq_None_iff keys_getAll)

lemma inner_field_iff:
  assumes "map_of (cache_Statistics c) k = Some inner"
  shows "g \<in> fst ` set inner \<longleftrightarrow>
      (g = ''hits'' \<and> k \<in> fst ` set (data (hitStats c)))
      \<or> (g = ''misses'' \<and> k \<in> fst ` set (data (missStats c)))"
proof -
  have a: "g \<in> fst ` set inner \<longleftrightarrow> map_of inner g \<noteq> None"
    by (simp add: map_of_eq_None_iff)
  have b: "map_of inner g = stat_field (cache_Statistics c) k g"
    using assms by (simp add: stat_field_def)
  have c: "stat_field (cache_Statistics c) k g \<noteq> None \<longleftrightarrow>
      (g = ''hits'' \<and> k \<in> fst ` set (data (hitStats c)))
      \<or> (g = ''misses'' \<and> k \<in> fst ` set (data (missStats c)))"
    unfolding stat_field_Statistics
    using field_present_iff [of "hitStats c" k] field_present_iff [of "missStats c" k]
    by (cases "g = ''misses''"; cases "g = ''hits''") simp_all
  show ?thesis unfolding a b c ..
qed

lemma inner_keys:
  assumes "map_of (cache_Statistics c) k = Some inner"
  shows "fst ` set inner =
      (if k \<in> fst ` set (data (hitStats c)) then {''hits''} else {})
      \<union> (if k \<in> fst ` set (data (missStats c)) then {''misses''} else {})"
proof (rule set_eqI)
  fix g
  show "g \<in> fst ` set inner \<longleftrightarrow>
      g \<in> (if k \<in> fst ` set (data (hitStats c)) then {''hits''} else {})
          \<union> (if k \<in> fst ` set (data (missStats c)) then {''misses''} else {})"
    unfolding inner_field_iff [OF assms] by simp
qed

lemma entry_present:
  assumes "k \<in> fst ` set (data (hitStats c)) \<union> fst ` set (data (missStats c))"
  shows "\<exists>inner. map_of (cache_Statistics c) k = Some inner"
proof -
  from assms have "k \<in> fst ` set (cache_Statistics c)" by (simp only: keys_Statistics)
  then have "map_of (cache_Statistics c) k \<noteq> None" by (simp only: map_of_eq_None_iff not_not)
  then show ?thesis by (cases "map_of (cache_Statistics c) k") simp_all
qed

lemma entry_fields:
  assumes "k \<in> fst ` set (data (hitStats c)) \<union> fst ` set (data (missStats c))"
  shows "\<exists>inner. map_of (cache_Statistics c) k = Some inner \<and>
      fst ` set inner =
        (if k \<in> fst ` set (data (hitStats c)) then {''hits''} else {})
        \<union> (if k \<in> fst ` set (data (missStats c)) then {''misses''} else {})"
proof -
  from entry_present [OF assms] obtain inner
    where i: "map_of (cache_Statistics c) k = Some inner" ..
  from i inner_keys [OF i] show ?thesis by (intro exI conjI)
qed

text \<open>
  Claim C8. The keys of the mapping that \<open>Statistics\<close> returns are exactly the keys of
  the hit counter together with those of the miss counter. The entry of a key that only
  the hit counter holds has the field "hits" and no other; the entry of a key that only
  the miss counter holds has the field "misses" and no other; a key of both has both
  fields. Each field carries the count of its counter.
\<close>

theorem Statistics_union:
  "fst ` set (cache_Statistics c)
     = fst ` set (data (hitStats c)) \<union> fst ` set (data (missStats c))
   \<and> (k \<in> fst ` set (data (hitStats c)) \<and> k \<notin> fst ` set (data (missStats c)) \<longrightarrow>
        (\<exists>inner. map_of (cache_Statistics c) k = Some inner \<and> fst ` set inner = {''hits''}))
   \<and> (k \<notin> fst ` set (data (hitStats c)) \<and> k \<in> fst ` set (data (missStats c)) \<longrightarrow>
        (\<exists>inner. map_of (cache_Statistics c) k = Some inner \<and> fst ` set inner = {''misses''}))
   \<and> (k \<in> fst ` set (data (hitStats c)) \<and> k \<in> fst ` set (data (missStats c)) \<longrightarrow>
        (\<exists>inner. map_of (cache_Statistics c) k = Some inner
            \<and> fst ` set inner = {''hits'', ''misses''}))
   \<and> (distinct (map fst (data (hitStats c))) \<longrightarrow>
        stat_field (cache_Statistics c) k ''hits'' = map_of (data (hitStats c)) k)
   \<and> (distinct (map fst (data (missStats c))) \<longrightarrow>
        stat_field (cache_Statistics c) k ''misses'' = map_of (data (missStats c)) k)"
proof -
  have only_hits:
    "k \<in> fst ` set (data (hitStats c)) \<and> k \<notin> fst ` set (data (missStats c)) \<longrightarrow>
     (\<exists>inner. map_of (cache_Statistics c) k = Some inner \<and> fst ` set inner = {''hits''})"
  proof
    assume h: "k \<in> fst ` set (data (hitStats c)) \<and> k \<notin> fst ` set (data (missStats c))"
    then have "k \<in> fst ` set (data (hitStats c)) \<union> fst ` set (data (missStats c))" by simp
    from entry_fields [OF this] h show
      "\<exists>inner. map_of (cache_Statistics c) k = Some inner \<and> fst ` set inner = {''hits''}"
      by simp
  qed
  have only_misses:
    "k \<notin> fst ` set (data (hitStats c)) \<and> k \<in> fst ` set (data (missStats c)) \<longrightarrow>
     (\<exists>inner. map_of (cache_Statistics c) k = Some inner \<and> fst ` set inner = {''misses''})"
  proof
    assume h: "k \<notin> fst ` set (data (hitStats c)) \<and> k \<in> fst ` set (data (missStats c))"
    then have "k \<in> fst ` set (data (hitStats c)) \<union> fst ` set (data (missStats c))" by simp
    from entry_fields [OF this] h show
      "\<exists>inner. map_of (cache_Statistics c) k = Some inner \<and> fst ` set inner = {''misses''}"
      by simp
  qed
  have both:
    "k \<in> fst ` set (data (hitStats c)) \<and> k \<in> fst ` set (data (missStats c)) \<longrightarrow>
     (\<exists>inner. map_of (cache_Statistics c) k = Some inner
        \<and> fst ` set inner = {''hits'', ''misses''})"
  proof
    assume h: "k \<in> fst ` set (data (hitStats c)) \<and> k \<in> fst ` set (data (missStats c))"
    then have "k \<in> fst ` set (data (hitStats c)) \<union> fst ` set (data (missStats c))" by simp
    from entry_fields [OF this] h show
      "\<exists>inner. map_of (cache_Statistics c) k = Some inner
        \<and> fst ` set inner = {''hits'', ''misses''}"
      by (simp add: insert_commute)
  qed
  have hv: "distinct (map fst (data (hitStats c))) \<longrightarrow>
      stat_field (cache_Statistics c) k ''hits'' = map_of (data (hitStats c)) k"
    by (simp add: stat_field_Statistics map_of_getAll)
  have mv: "distinct (map fst (data (missStats c))) \<longrightarrow>
      stat_field (cache_Statistics c) k ''misses'' = map_of (data (missStats c)) k"
    by (simp add: stat_field_Statistics map_of_getAll)
  show ?thesis
    by (intro conjI keys_Statistics only_hits only_misses both hv mv)
qed

lemma example_counters:
  "data (hitStats (cache_miss (cache_hit (cache_hit (NewCache True empty_store) ''a'') ''a'') ''b''))
     = [(''a'', 2)]"
  "data (missStats (cache_miss (cache_hit (cache_hit (NewCache True empty_store) ''a'') ''a'') ''b''))
     = [(''b'', 1)]"
  by (simp_all add: cache_miss_def cache_hit_def NewCache_def newStatsMap_def
      statsMap_increment_def)

theorem Statistics_union_witness:
  "fst ` set (cache_Statistics
      (cache_miss (cache_hit (cache_hit (NewCache True empty_store) ''a'') ''a'') ''b''))
     = {''a'', ''b''}
   \<and> (\<exists>inner. map_of (cache_Statistics
          (cache_miss (cache_hit (cache_hit (NewCache True empty_store) ''a'') ''a'') ''b'')) ''a''
        = Some inner \<and> fst ` set inner = {''hits''})
   \<and> (\<exists>inner. map_of (cache_Statistics
          (cache_miss (cache_hit (cache_hit (NewCache True empty_store) ''a'') ''a'') ''b'')) ''b''
        = Some inner \<and> fst ` set inner = {''misses''})
   \<and> stat_field (cache_Statistics
          (cache_miss (cache_hit (cache_hit (NewCache True empty_store) ''a'') ''a'') ''b''))
        ''a'' ''hits'' = Some 2"
  using
    Statistics_union [of "cache_miss (cache_hit (cache_hit (NewCache True empty_store) ''a'') ''a'') ''b''" "''a''"]
    Statistics_union [of "cache_miss (cache_hit (cache_hit (NewCache True empty_store) ''a'') ''a'') ''b''" "''b''"]
  by (simp add: example_counters insert_commute)

text \<open>
  Claim C5. \<open>KeyStatistics\<close> fails exactly when the hit count and the miss count of
  the key are both zero, with the error "no statistics available for the given key";
  otherwise it returns the two counts under "hits" and "misses". It only reads the
  cache (its result is a function of the cache, which it does not return changed), and
  on a new cache it fails for every key.
\<close>

theorem KeyStatistics_not_found:
  "((\<exists>e. cache_KeyStatistics c key = Inl e) \<longleftrightarrow>
      statsMap_get (hitStats c) key = 0 \<and> statsMap_get (missStats c) key = 0)
   \<and> (statsMap_get (hitStats c) key = 0 \<and> statsMap_get (missStats c) key = 0 \<longrightarrow>
        cache_KeyStatistics c key = Inl NoStatistics)
   \<and> (\<not> (statsMap_get (hitStats c) key = 0 \<and> statsMap_get (missStats c) key = 0) \<longrightarrow>
        cache_KeyStatistics c key
          = Inr [(''hits'', statsMap_get (hitStats c) key),
                 (''misses'', statsMap_get (missStats c) key)])
   \<and> cache_KeyStatistics (NewCache b srv) key = Inl NoStatistics"
  by (auto simp: cache_KeyStatistics_def Let_def NewCache_def get_new)

theorem KeyStatistics_not_found_witness:
  "cache_KeyStatistics
      (cache_miss (cache_hit (cache_hit (NewCache True empty_store) ''a'') ''a'') ''b'') ''a''
     = Inr [(''hits'', 2), (''misses'', 0)]
   \<and> cache_KeyStatistics
      (cache_miss (cache_hit (cache_hit (NewCache True empty_store) ''a'') ''a'') ''b'') ''z''
     = Inl NoStatistics"
  using
    KeyStatistics_not_found [of "cache_miss (cache_hit (cache_hit (NewCache True empty_store) ''a'') ''a'') ''b''" "''a''"]
    KeyStatistics_not_found [of "cache_miss (cache_hit (cache_hit (NewCache True empty_store) ''a'') ''a'') ''b''" "''z''"]
  by (simp add: statsMap_get_def example_counters)

section \<open>The store, the driver and the cache\<close>

lemma healthy_tl: "healthy s \<Longrightarrow> healthy (s\<lparr>faults := tl (faults s)\<rparr>)"
  by (cases "faults s") (auto simp: healthy_def)

lemma round_trip_healthy:
  "healthy s \<Longrightarrow> round_trip s = (False, s\<lparr>faults := tl (faults s)\<rparr>)"
  by (cases "faults s") (auto simp: healthy_def round_trip_def)

lemma round_trip_fault:
  "faults s = True # fs \<Longrightarrow> round_trip s = (True, s\<lparr>faults := fs\<rparr>)"
  by (simp add: round_trip_def)

lemma round_trip_ok:
  "faults s = False # fs \<Longrightarrow> round_trip s = (False, s\<lparr>faults := fs\<rparr>)"
  by (simp add: round_trip_def)

lemma healthy_empty_store: "healthy empty_store"
  by (simp add: healthy_def empty_store_def)

lemma cacheDriver_Get_healthy:
  "healthy srv \<Longrightarrow>
   cacheDriver_Get srv key =
     ((Some (VStr (case kv srv key of None \<Rightarrow> [] | Some e \<Rightarrow> payload e)),
       (case kv srv key of None \<Rightarrow> Some RedisNil | Some e \<Rightarrow> None)),
      srv\<lparr>faults := tl (faults srv)\<rparr>)"
  by (simp add: cacheDriver_Get_def RedisClient_Get_def Client_Get_def round_trip_healthy
      split: option.splits)

lemma cacheDriver_Get_fault:
  "faults srv = True # fs \<Longrightarrow>
   cacheDriver_Get srv key = ((Some (VStr []), Some ConnErr), srv\<lparr>faults := fs\<rparr>)"
  by (simp add: cacheDriver_Get_def RedisClient_Get_def Client_Get_def round_trip_fault)

lemma cacheDriver_Get_boxed: "fst (fst (cacheDriver_Get srv key)) \<noteq> None"
  by (simp add: cacheDriver_Get_def split: prod.splits)

lemma cacheDriver_Set_healthy:
  "healthy srv \<Longrightarrow>
   cacheDriver_Set srv key v =
     (None, srv\<lparr>faults := tl (faults srv),
                kv := (kv srv)(key \<mapsto> \<lparr>payload = render v, expiry = None\<rparr>)\<rparr>)"
  by (simp add: cacheDriver_Set_def RedisClient_Set_def Client_Set_def round_trip_healthy
      ttl_of_def)

lemma cacheDriver_Set_fault:
  "faults srv = True # fs \<Longrightarrow>
   cacheDriver_Set srv key v = (Some ConnErr, srv\<lparr>faults := fs\<rparr>)"
  by (simp add: cacheDriver_Set_def RedisClient_Set_def Client_Set_def round_trip_fault)

text \<open>Whatever the driver answers, \<open>Get\<close> takes the branch that records a hit.\<close>

lemma cache_Get_hit_branch:
  "cache_Get c key latency =
     (fst (cacheDriver_Get (Cache c) key),
      (cache_hit (c\<lparr>Cache := snd (cacheDriver_Get (Cache c) key)\<rparr>) key)
        \<lparr>hitLatency := hitLatency c + latency, hitCount := hitCount c + 1\<rparr>)"
proof -
  obtain dat e srv where g: "cacheDriver_Get (Cache c) key = ((dat, e), srv)"
    by (cases "cacheDriver_Get (Cache c) key") auto
  with cacheDriver_Get_boxed [of "Cache c" key] have "dat \<noteq> None" by simp
  with g show ?thesis by (auto simp: cache_Get_def Let_def)
qed

lemma cache_Get_fields:
  "hitCount (snd (cache_Get c key latency)) = hitCount c + 1"
  "hitLatency (snd (cache_Get c key latency)) = hitLatency c + latency"
  "missStats (snd (cache_Get c key latency)) = missStats c"
  "hitStats (snd (cache_Get c key latency))
     = (if RecordStatistics c then statsMap_increment (hitStats c) key else hitStats c)"
  "RecordStatistics (snd (cache_Get c key latency)) = RecordStatistics c"
  "Cache (snd (cache_Get c key latency)) = snd (cacheDriver_Get (Cache c) key)"
  by (simp_all add: cache_Get_hit_branch cache_hit_def)

lemma cache_Set_fields:
  "hitCount (snd (cache_Set c key v)) = hitCount c"
  "hitLatency (snd (cache_Set c key v)) = hitLatency c"
  "missStats (snd (cache_Set c key v)) = missStats c"
  "hitStats (snd (cache_Set c key v)) = hitStats c"
  "RecordStatistics (snd (cache_Set c key v)) = RecordStatistics c"
  "Cache (snd (cache_Set c key v)) = snd (cacheDriver_Set (Cache c) key v)"
  "fst (cache_Set c key v) = fst (cacheDriver_Set (Cache c) key v)"
  by (simp_all add: cache_Set_def split: prod.splits)

section \<open>Average hit latency\<close>

text \<open>
  Claim C6. \<open>AverageHitLatency\<close> returns exactly zero whenever the hit count is zero,
  in particular on a new cache, before any hit is recorded. Otherwise it returns the
  hit-latency total divided by the hit count, computed in \<open>float64\<close>: wherever the
  conversions and the division are exact, the result is the quotient itself.
\<close>

theorem AverageHitLatency_quotient:
  "(hitCount c = 0 \<longrightarrow> cache_AverageHitLatency float64 c = 0)
   \<and> (hitCount c \<noteq> 0 \<longrightarrow>
        cache_AverageHitLatency float64 c
          = float64 (float64 (real (unat (hitLatency c))) / float64 (real (unat (hitCount c)))))
   \<and> (hitCount c \<noteq> 0
        \<and> float64 (real (unat (hitLatency c))) = real (unat (hitLatency c))
        \<and> float64 (real (unat (hitCount c))) = real (unat (hitCount c))
        \<and> float64 (real (unat (hitLatency c)) / real (unat (hitCount c)))
            = real (unat (hitLatency c)) / real (unat (hitCount c)) \<longrightarrow>
        cache_AverageHitLatency float64 c
          = real (unat (hitLatency c)) / real (unat (hitCount c)))
   \<and> cache_AverageHitLatency float64 (NewCache b srv) = 0"
  by (simp add: cache_AverageHitLatency_def NewCache_def)

theorem AverageHitLatency_quotient_witness:
  "cache_AverageHitLatency (\<lambda>x. x) ((NewCache True empty_store)\<lparr>hitLatency := 10, hitCount := 4\<rparr>)
     = 5 / 2
   \<and> cache_AverageHitLatency (\<lambda>x. x) ((NewCache True empty_store)\<lparr>hitLatency := 10\<rparr>) = 0"
  using
    AverageHitLatency_quotient [of "(NewCache True empty_store)\<lparr>hitLatency := 10, hitCount := 4\<rparr>" "\<lambda>x. x"]
    AverageHitLatency_quotient [of "(NewCache True empty_store)\<lparr>hitLatency := 10\<rparr>" "\<lambda>x. x"]
  by (simp add: NewCache_def)

section \<open>Get and Set of the cache\<close>

text \<open>
  Claim C3, evaluated on the code. A \<open>Get\<close> of a key that was never set, on a new
  cache that records statistics, returns the error \<open>redis.Nil\<close> together with the
  boxed empty string, which is not \<open>nil\<close>: the call is counted as a hit, no miss is
  recorded, and its latency is added to the hit latency. The same happens when the
  round trip to the store fails.
\<close>

theorem Get_failure_counts_as_hit:
  "fst (cache_Get (NewCache True empty_store) ''k'' 7) = (Some (VStr []), Some RedisNil)
   \<and> statsMap_get (hitStats (snd (cache_Get (NewCache True empty_store) ''k'' 7))) ''k'' = 1
   \<and> statsMap_get (missStats (snd (cache_Get (NewCache True empty_store) ''k'' 7))) ''k'' = 0
   \<and> hitCount (snd (cache_Get (NewCache True empty_store) ''k'' 7)) = 1
   \<and> hitLatency (snd (cache_Get (NewCache True empty_store) ''k'' 7)) = 7
   \<and> fst (cache_Get (NewCache True \<lparr>kv = Map.empty, faults = [True]\<rparr>) ''k'' 7)
       = (Some (VStr []), Some ConnErr)
   \<and> statsMap_get (hitStats (snd (cache_Get (NewCache True \<lparr>kv = Map.empty, faults = [True]\<rparr>) ''k'' 7))) ''k'' = 1
   \<and> statsMap_get (missStats (snd (cache_Get (NewCache True \<lparr>kv = Map.empty, faults = [True]\<rparr>) ''k'' 7))) ''k'' = 0"
proof -
  have a: "fst (cache_Get (NewCache True empty_store) ''k'' 7) = (Some (VStr []), Some RedisNil)"
    by (simp add: cache_Get_hit_branch cacheDriver_Get_healthy healthy_empty_store NewCache_def)
      (simp add: empty_store_def)
  have b: "fst (cache_Get (NewCache True \<lparr>kv = Map.empty, faults = [True]\<rparr>) ''k'' 7)
       = (Some (VStr []), Some ConnErr)"
    by (simp add: cache_Get_hit_branch cacheDriver_Get_fault [of _ "[]"] NewCache_def)
  have n: "RecordStatistics (NewCache True srv)" "hitStats (NewCache True srv) = newStatsMap"
    "missStats (NewCache True srv) = newStatsMap" "hitCount (NewCache True srv) = 0"
    "hitLatency (NewCache True srv) = 0" for srv
    by (simp_all add: NewCache_def)
  show ?thesis
    by (simp add: a b cache_Get_fields n get_increment_same get_new)
qed

lemma NewCache_fields:
  "hitStats (NewCache b srv) = newStatsMap" "missStats (NewCache b srv) = newStatsMap"
  "hitLatency (NewCache b srv) = 0" "hitCount (NewCache b srv) = 0"
  "RecordStatistics (NewCache b srv) = b" "Cache (NewCache b srv) = srv"
  by (simp_all add: NewCache_def)

lemma show_int_5: "show_int 5 = ''5''"
  by code_simp

lemma healthy_after_Set: "healthy srv \<Longrightarrow> healthy (snd (cacheDriver_Set srv key v))"
  using healthy_tl [of srv] by (simp add: cacheDriver_Set_healthy healthy_def)

lemma Set_then_Get:
  assumes "healthy (Cache c)"
  shows "fst (cache_Set c k v) = None"
    and "fst (cache_Get (snd (cache_Set c k v)) k latency) = (Some (VStr (render v)), None)"
proof -
  show "fst (cache_Set c k v) = None"
    using assms by (simp add: cache_Set_fields cacheDriver_Set_healthy)
  have h: "healthy (Cache (snd (cache_Set c k v)))"
    using assms by (simp add: cache_Set_fields healthy_after_Set)
  have "kv (Cache (snd (cache_Set c k v))) k = Some \<lparr>payload = render v, expiry = None\<rparr>"
    using assms by (simp add: cache_Set_fields cacheDriver_Set_healthy)
  with h show "fst (cache_Get (snd (cache_Set c k v)) k latency) = (Some (VStr (render v)), None)"
    by (simp add: cache_Get_hit_branch cacheDriver_Get_healthy)
qed

text \<open>
  Claim C4 as stated fails for a value that is not a string: the store returns text, so
  after \<open>Set\<close> of the integer 5 a \<open>Get\<close> returns the string "5".
\<close>

theorem Set_Get_integer_value:
  "fst (cache_Set (NewCache True empty_store) ''k'' (Some (VInt 5))) = None
   \<and> fst (cache_Get (snd (cache_Set (NewCache True empty_store) ''k'' (Some (VInt 5)))) ''k'' 7)
       = (Some (VStr ''5''), None)
   \<and> fst (fst (cache_Get (snd (cache_Set (NewCache True empty_store) ''k'' (Some (VInt 5)))) ''k'' 7))
       \<noteq> Some (VInt 5)"
proof -
  have h: "healthy (Cache (NewCache True empty_store))"
    by (simp add: NewCache_def healthy_empty_store)
  show ?thesis
    by (simp add: Set_then_Get [OF h] render_def show_int_5)
qed

text \<open>
  Claim C4, amended. For every key and every string value \<open>v\<close>, on a cache that
  records statistics and whose store answers, \<open>Set\<close> followed by \<open>Get\<close> returns \<open>v\<close>
  with no error, records exactly one hit for the key (the hit counter map is the one
  before with the key incremented once) and no miss; on a new cache the key then has
  one hit and zero misses.
\<close>

theorem Set_Get_round_trip:
  "healthy (Cache c) \<and> RecordStatistics c \<longrightarrow>
     fst (cache_Set c k (Some (VStr v))) = None
     \<and> fst (cache_Get (snd (cache_Set c k (Some (VStr v)))) k latency) = (Some (VStr v), None)
     \<and> hitStats (snd (cache_Get (snd (cache_Set c k (Some (VStr v)))) k latency))
         = statsMap_increment (hitStats c) k
     \<and> statsMap_get (hitStats (snd (cache_Get (snd (cache_Set c k (Some (VStr v)))) k latency))) k
         = statsMap_get (hitStats c) k + 1
     \<and> missStats (snd (cache_Get (snd (cache_Set c k (Some (VStr v)))) k latency)) = missStats c
     \<and> (hitStats c = newStatsMap \<and> missStats c = newStatsMap \<longrightarrow>
          statsMap_get (hitStats (snd (cache_Get (snd (cache_Set c k (Some (VStr v)))) k latency))) k = 1
          \<and> statsMap_get (missStats (snd (cache_Get (snd (cache_Set c k (Some (VStr v)))) k latency))) k = 0)"
proof
  assume a: "healthy (Cache c) \<and> RecordStatistics c"
  then have h: "healthy (Cache c)" and r: "RecordStatistics c" by simp_all
  show "fst (cache_Set c k (Some (VStr v))) = None
     \<and> fst (cache_Get (snd (cache_Set c k (Some (VStr v)))) k latency) = (Some (VStr v), None)
     \<and> hitStats (snd (cache_Get (snd (cache_Set c k (Some (VStr v)))) k latency))
         = statsMap_increment (hitStats c) k
     \<and> statsMap_get (hitStats (snd (cache_Get (snd (cache_Set c k (Some (VStr v)))) k latency))) k
         = statsMap_get (hitStats c) k + 1
     \<and> missStats (snd (cache_Get (snd (cache_Set c k (Some (VStr v)))) k latency)) = missStats c
     \<and> (hitStats c = newStatsMap \<and> missStats c = newStatsMap \<longrightarrow>
          statsMap_get (hitStats (snd (cache_Get (snd (cache_Set c k (Some (VStr v)))) k latency))) k = 1
          \<and> statsMap_get (missStats (snd (cache_Get (snd (cache_Set c k (Some (VStr v)))) k latency))) k = 0)"
    using r
    by (simp add: Set_then_Get [OF h] render_def cache_Get_fields cache_Set_fields(3-5)
        get_increment_same get_new)
qed

theorem Set_Get_round_trip_witness:
  "fst (cache_Get (snd (cache_Set (NewCache True empty_store) ''k'' (Some (VStr ''v'')))) ''k'' 7)
     = (Some (VStr ''v''), None)
   \<and> statsMap_get (hitStats (snd (cache_Get (snd (cache_Set (NewCache True empty_store) ''k''
        (Some (VStr ''v'')))) ''k'' 7))) ''k'' = 1
   \<and> statsMap_get (missStats (snd (cache_Get (snd (cache_Set (NewCache True empty_store) ''k''
        (Some (VStr ''v'')))) ''k'' 7))) ''k'' = 0"
  using Set_Get_round_trip [of "NewCache True empty_store" "''k''" "''v''" 7]
  by (simp add: NewCache_fields healthy_empty_store get_increment_same get_new)

section \<open>Wrap: compute if absent\<close>

lemma cacheDriver_Get_ok:
  "faults srv = False # fs \<Longrightarrow>
   cacheDriver_Get srv key =
     ((Some (VStr (case kv srv key of None \<Rightarrow> [] | Some e \<Rightarrow> payload e)),
       (case kv srv key of None \<Rightarrow> Some RedisNil | Some e \<Rightarrow> None)),
      srv\<lparr>faults := fs\<rparr>)"
  by (simp add: cacheDriver_Get_def RedisClient_Get_def Client_Get_def round_trip_ok
      split: option.splits)

lemma cache_Wrap_eq:
  "cache_Wrap c key producer p latency =
     (if snd (fst (cache_Get c key latency)) = None \<and> fst (fst (cache_Get c key latency)) \<noteq> None
      then (fst (fst (cache_Get c key latency)), snd (cache_Get c key latency), p)
      else (fst (producer p),
            snd (cache_Set (snd (cache_Get c key latency)) key (fst (producer p))),
            snd (producer p)))"
  by (simp add: cache_Wrap_def split: prod.splits)

lemma Wrap_cached:
  assumes "healthy (Cache c)" and "kv (Cache c) key = Some e"
  shows "cache_Wrap c key producer p latency
           = (Some (VStr (payload e)), snd (cache_Get c key latency), p)"
  using assms by (simp add: cache_Wrap_eq cache_Get_hit_branch cacheDriver_Get_healthy)

lemma Wrap_absent:
  assumes "healthy (Cache c)" and "kv (Cache c) key = None"
  shows "fst (cache_Wrap c key producer p latency) = fst (producer p)"
    and "kv (Cache (fst (snd (cache_Wrap c key producer p latency)))) key
           = Some \<lparr>payload = render (fst (producer p)), expiry = None\<rparr>"
proof -
  have g: "snd (fst (cache_Get c key latency)) = Some RedisNil"
    using assms by (simp add: cache_Get_hit_branch cacheDriver_Get_healthy)
  show "fst (cache_Wrap c key producer p latency) = fst (producer p)"
    using g by (simp add: cache_Wrap_eq)
  have h: "healthy (Cache (snd (cache_Get c key latency)))"
    using assms healthy_tl [of "Cache c"]
    by (simp add: cache_Get_fields cacheDriver_Get_healthy)
  show "kv (Cache (fst (snd (cache_Wrap c key producer p latency)))) key
           = Some \<lparr>payload = render (fst (producer p)), expiry = None\<rparr>"
    using g h by (simp add: cache_Wrap_eq cache_Set_fields cacheDriver_Set_healthy)
qed

lemma Wrap_Set_fails:
  assumes "faults (Cache c) = False # True # fs" and "kv (Cache c) key = None"
  shows "fst (cache_Set (snd (cache_Get c key latency)) key (fst (producer p))) = Some ConnErr"
    and "fst (cache_Wrap c key producer p latency) = fst (producer p)"
    and "kv (Cache (fst (snd (cache_Wrap c key producer p latency)))) = kv (Cache c)"
proof -
  have g: "snd (fst (cache_Get c key latency)) = Some RedisNil"
    using assms by (simp add: cache_Get_hit_branch cacheDriver_Get_ok [of _ "True # fs"])
  have f: "faults (Cache (snd (cache_Get c key latency))) = True # fs"
    and k: "kv (Cache (snd (cache_Get c key latency))) = kv (Cache c)"
    using assms by (simp_all add: cache_Get_fields cacheDriver_Get_ok [of _ "True # fs"])
  show "fst (cache_Set (snd (cache_Get c key latency)) key (fst (producer p))) = Some ConnErr"
    using f by (simp add: cache_Set_fields cacheDriver_Set_fault [of _ fs])
  show "fst (cache_Wrap c key producer p latency) = fst (producer p)"
    using g by (simp add: cache_Wrap_eq)
  show "kv (Cache (fst (snd (cache_Wrap c key producer p latency)))) = kv (Cache c)"
    using g f k by (simp add: cache_Wrap_eq cache_Set_fields cacheDriver_Set_fault [of _ fs])
qed

text \<open>
  Claim C7. \<open>Wrap\<close> returns the cached value, without calling the producer, when
  \<open>Get\<close> returns no error and a value that is not \<open>nil\<close>: with a store that answers,
  that is when the key is present. In every other case, also when \<open>Get\<close> returns an
  error, it calls the producer once, writes the produced value with \<open>Set\<close> and returns
  the produced value, whatever \<open>Set\<close> returns: when the write fails, the error is
  dropped, the store is left as it was and the caller still gets the produced value.
\<close>

theorem Wrap_compute_if_absent:
  "(snd (fst (cache_Get c key latency)) = None \<and> fst (fst (cache_Get c key latency)) \<noteq> None \<longrightarrow>
      cache_Wrap c key producer p latency
        = (fst (fst (cache_Get c key latency)), snd (cache_Get c key latency), p))
   \<and> (\<not> (snd (fst (cache_Get c key latency)) = None
          \<and> fst (fst (cache_Get c key latency)) \<noteq> None) \<longrightarrow>
      cache_Wrap c key producer p latency
        = (fst (producer p),
           snd (cache_Set (snd (cache_Get c key latency)) key (fst (producer p))),
           snd (producer p)))
   \<and> (snd (fst (cache_Get c key latency)) \<noteq> None \<longrightarrow>
      fst (cache_Wrap c key producer p latency) = fst (producer p))
   \<and> (healthy (Cache c) \<and> kv (Cache c) key = Some e \<longrightarrow>
      cache_Wrap c key producer p latency
        = (Some (VStr (payload e)), snd (cache_Get c key latency), p))
   \<and> (healthy (Cache c) \<and> kv (Cache c) key = None \<longrightarrow>
      fst (cache_Wrap c key producer p latency) = fst (producer p)
      \<and> kv (Cache (fst (snd (cache_Wrap c key producer p latency)))) key
          = Some \<lparr>payload = render (fst (producer p)), expiry = None\<rparr>)
   \<and> (faults (Cache c) = False # True # fs \<and> kv (Cache c) key = None \<longrightarrow>
      fst (cache_Set (snd (cache_Get c key latency)) key (fst (producer p))) = Some ConnErr
      \<and> fst (cache_Wrap c key producer p latency) = fst (producer p)
      \<and> kv (Cache (fst (snd (cache_Wrap c key producer p latency)))) = kv (Cache c))"
proof -
  have a: "snd (fst (cache_Get c key latency)) = None \<and> fst (fst (cache_Get c key latency)) \<noteq> None \<longrightarrow>
      cache_Wrap c key producer p latency
        = (fst (fst (cache_Get c key latency)), snd (cache_Get c key latency), p)"
    by (simp add: cache_Wrap_eq)
  have b: "\<not> (snd (fst (cache_Get c key latency)) = None
          \<and> fst (fst (cache_Get c key latency)) \<noteq> None) \<longrightarrow>
      cache_Wrap c key producer p latency
        = (fst (producer p),
           snd (cache_Set (snd (cache_Get c key latency)) key (fst (producer p))),
           snd (producer p))"
    by (simp add: cache_Wrap_eq)
  have c: "snd (fst (cache_Get c key latency)) \<noteq> None \<longrightarrow>
      fst (cache_Wrap c key producer p latency) = fst (producer p)"
    by (simp add: cache_Wrap_eq)
  have d: "healthy (Cache c) \<and> kv (Cache c) key = Some e \<longrightarrow>
      cache_Wrap c key producer p latency
        = (Some (VStr (payload e)), snd (cache_Get c key latency), p)"
    by (simp add: Wrap_cached)
  have e: "healthy (Cache c) \<and> kv (Cache c) key = None \<longrightarrow>
      fst (cache_Wrap c key producer p latency) = fst (producer p)
      \<and> kv (Cache (fst (snd (cache_Wrap c key producer p latency)))) key
          = Some \<lparr>payload = render (fst (producer p)), expiry = None\<rparr>"
    by (simp add: Wrap_absent)
  have f: "faults (Cache c) = False # True # fs \<and> kv (Cache c) key = None \<longrightarrow>
      fst (cache_Set (snd (cache_Get c key latency)) key (fst (producer p))) = Some ConnErr
      \<and> fst (cache_Wrap c key producer p latency) = fst (producer p)
      \<and> kv (Cache (fst (snd (cache_Wrap c key producer p latency)))) = kv (Cache c)"
    by (simp add: Wrap_Set_fails [of c fs key])
  show ?thesis by (intro conjI a b c d e f)
qed

theorem Wrap_compute_if_absent_witness:
  "cache_Wrap (NewCache True \<lparr>kv = [''k'' \<mapsto> \<lparr>payload = ''old'', expiry = None\<rparr>], faults = []\<rparr>)
      ''k'' (\<lambda>n. (Some (VStr ''new''), Suc n)) (0 :: nat) 7
     = (Some (VStr ''old''),
        snd (cache_Get (NewCache True
              \<lparr>kv = [''k'' \<mapsto> \<lparr>payload = ''old'', expiry = None\<rparr>], faults = []\<rparr>) ''k'' 7),
        0)
   \<and> cache_Wrap (NewCache True \<lparr>kv = Map.empty, faults = [False, True]\<rparr>)
        ''k'' (\<lambda>n. (Some (VStr ''new''), Suc n)) (0 :: nat) 7
     = (Some (VStr ''new''),
        snd (cache_Set (snd (cache_Get (NewCache True \<lparr>kv = Map.empty, faults = [False, True]\<rparr>)
              ''k'' 7)) ''k'' (Some (VStr ''new''))),
        Suc 0)
   \<and> fst (cache_Set (snd (cache_Get (NewCache True \<lparr>kv = Map.empty, faults = [False, True]\<rparr>)
              ''k'' 7)) ''k'' (Some (VStr ''new''))) = Some ConnErr
   \<and> kv (Cache (fst (snd (cache_Wrap (NewCache True \<lparr>kv = Map.empty, faults = [False, True]\<rparr>)
        ''k'' (\<lambda>n. (Some (VStr ''new''), Suc n)) (0 :: nat) 7)))) = Map.empty
   \<and> fst (cache_Wrap (NewCache True \<lparr>kv = Map.empty, faults = [True]\<rparr>)
        ''k'' (\<lambda>n. (Some (VStr ''new''), Suc n)) (0 :: nat) 7) = Some (VStr ''new'')"
proof -
  have g1: "snd (fst (cache_Get (NewCache True \<lparr>kv = Map.empty, faults = [False, True]\<rparr>) ''k'' 7))
      = Some RedisNil"
    by (simp add: cache_Get_hit_branch cacheDriver_Get_ok [of _ "[True]"] NewCache_fields)
  have g2: "snd (fst (cache_Get (NewCache True \<lparr>kv = Map.empty, faults = [True]\<rparr>) ''k'' 7))
      = Some ConnErr"
    by (simp add: cache_Get_hit_branch cacheDriver_Get_fault [of _ "[]"] NewCache_fields)
  note t1 = Wrap_compute_if_absent [of "NewCache True \<lparr>kv = [''k'' \<mapsto> \<lparr>payload = ''old'', expiry = None\<rparr>], faults = []\<rparr>"
        "''k''" 7 "\<lambda>n. (Some (VStr ''new''), Suc n)" "0 :: nat" "\<lparr>payload = ''old'', expiry = None\<rparr>" "[]"]
  note t2 = Wrap_compute_if_absent [of "NewCache True \<lparr>kv = Map.empty, faults = [False, True]\<rparr>"
        "''k''" 7 "\<lambda>n. (Some (VStr ''new''), Suc n)" "0 :: nat" "\<lparr>payload = ''old'', expiry = None\<rparr>" "[]"]
  note t3 = Wrap_compute_if_absent [of "NewCache True \<lparr>kv = Map.empty, faults = [True]\<rparr>"
        "''k''" 7 "\<lambda>n. (Some (VStr ''new''), Suc n)" "0 :: nat" "\<lparr>payload = ''old'', expiry = None\<rparr>" "[]"]
  have w1: "cache_Wrap (NewCache True \<lparr>kv = [''k'' \<mapsto> \<lparr>payload = ''old'', expiry = None\<rparr>], faults = []\<rparr>)
      ''k'' (\<lambda>n. (Some (VStr ''new''), Suc n)) (0 :: nat) 7
     = (Some (VStr ''old''),
        snd (cache_Get (NewCache True
              \<lparr>kv = [''k'' \<mapsto> \<lparr>payload = ''old'', expiry = None\<rparr>], faults = []\<rparr>) ''k'' 7),
        0)"
    using t1 [THEN conjunct2, THEN conjunct2, THEN conjunct2, THEN conjunct1]
    by (simp add: NewCache_fields healthy_def)
  have w2: "cache_Wrap (NewCache True \<lparr>kv = Map.empty, faults = [False, True]\<rparr>)
        ''k'' (\<lambda>n. (Some (VStr ''new''), Suc n)) (0 :: nat) 7
     = (Some (VStr ''new''),
        snd (cache_Set (snd (cache_Get (NewCache True \<lparr>kv = Map.empty, faults = [False, True]\<rparr>)
              ''k'' 7)) ''k'' (Some (VStr ''new''))),
        Suc 0)"
    using t2 [THEN conjunct2, THEN conjunct1] by (simp add: g1)
  have w3: "fst (cache_Set (snd (cache_Get (NewCache True \<lparr>kv = Map.empty, faults = [False, True]\<rparr>)
              ''k'' 7)) ''k'' (Some (VStr ''new''))) = Some ConnErr
   \<and> kv (Cache (fst (snd (cache_Wrap (NewCache True \<lparr>kv = Map.empty, faults = [False, True]\<rparr>)
        ''k'' (\<lambda>n. (Some (VStr ''new''), Suc n)) (0 :: nat) 7)))) = Map.empty"
    using t2 [THEN conjunct2, THEN conjunct2, THEN conjunct2, THEN conjunct2, THEN conjunct2]
    by (simp add: NewCache_fields)
  have w4: "fst (cache_Wrap (NewCache True \<lparr>kv = Map.empty, faults = [True]\<rparr>)
        ''k'' (\<lambda>n. (Some (VStr ''new''), Suc n)) (0 :: nat) 7) = Some (VStr ''new'')"
    using t3 [THEN conjunct2, THEN conjunct2, THEN conjunct1] by (simp add: g2)
  from w1 w2 w3 w4 show ?thesis by simp
qed

section \<open>A cache that does not record statistics\<close>

lemma Statistics_new: "hitStats c = newStatsMap \<Longrightarrow> missStats c = newStatsMap \<Longrightarrow> cache_Statistics c = []"
  by (simp add: cache_Statistics_def statsMap_getAll_def newStatsMap_def)

lemma Wrap_cache_fields:
  "hitStats (fst (snd (cache_Wrap c key producer p latency)))
     = (if RecordStatistics c then statsMap_increment (hitStats c) key else hitStats c)"
  "missStats (fst (snd (cache_Wrap c key producer p latency))) = missStats c"
  "RecordStatistics (fst (snd (cache_Wrap c key producer p latency))) = RecordStatistics c"
  "hitCount (fst (snd (cache_Wrap c key producer p latency))) = hitCount c + 1"
  "hitLatency (fst (snd (cache_Wrap c key producer p latency))) = hitLatency c + latency"
  by (simp_all add: cache_Wrap_eq cache_Get_fields cache_Set_fields(1-5))

lemma step_without_recording:
  "\<not> RecordStatistics c \<Longrightarrow>
   hitStats (cache_step c x) = hitStats c \<and> missStats (cache_step c x) = missStats c
   \<and> \<not> RecordStatistics (cache_step c x)"
  by (cases x) (simp_all add: cache_Get_fields cache_Set_fields(1-5) Wrap_cache_fields)

lemma run_without_recording:
  "\<not> RecordStatistics c \<Longrightarrow>
   hitStats (run_cache ops c) = hitStats c \<and> missStats (run_cache ops c) = missStats c
   \<and> \<not> RecordStatistics (run_cache ops c)"
  unfolding run_cache_def
proof (induction ops arbitrary: c)
  case Nil
  then show ?case by simp
next
  case (Cons x ops)
  from step_without_recording [OF Cons.prems, of x]
  have s: "hitStats (cache_step c x) = hitStats c" "missStats (cache_step c x) = missStats c"
    "\<not> RecordStatistics (cache_step c x)" by simp_all
  from Cons.IH [OF s(3)] s(1,2) show ?case by simp
qed

lemma run_cache_snoc: "run_cache (ops @ [x]) c = cache_step (run_cache ops c) x"
  by (simp add: run_cache_def)

text \<open>
  Claim C10. On a cache constructed with \<open>RecordStatistics\<close> false, after any run of
  \<open>Get\<close>, \<open>Set\<close> and \<open>Wrap\<close> both counter maps are still empty, \<open>KeyStatistics\<close>
  fails for every key and \<open>Statistics\<close> returns the empty mapping. Every \<open>Get\<close> still
  adds one to the hit count and its latency to the hit-latency total: after a \<open>Set\<close>
  and a \<open>Get\<close> that took 5 microseconds, the average hit latency is 5 while
  \<open>Statistics\<close> is empty.
\<close>

theorem no_recording_when_disabled:
  "hitStats (run_cache ops (NewCache False srv)) = newStatsMap
   \<and> missStats (run_cache ops (NewCache False srv)) = newStatsMap
   \<and> cache_KeyStatistics (run_cache ops (NewCache False srv)) key = Inl NoStatistics
   \<and> cache_Statistics (run_cache ops (NewCache False srv)) = []
   \<and> hitCount (run_cache (ops @ [OpGet key latency]) (NewCache False srv))
       = hitCount (run_cache ops (NewCache False srv)) + 1
   \<and> hitLatency (run_cache (ops @ [OpGet key latency]) (NewCache False srv))
       = hitLatency (run_cache ops (NewCache False srv)) + latency
   \<and> cache_Statistics
        (run_cache [OpSet ''k'' (Some (VStr ''v'')), OpGet ''k'' 5] (NewCache False empty_store)) = []
   \<and> cache_AverageHitLatency (\<lambda>x. x)
        (run_cache [OpSet ''k'' (Some (VStr ''v'')), OpGet ''k'' 5] (NewCache False empty_store)) = 5"
proof -
  have inv: "hitStats (run_cache ops' (NewCache False srv')) = newStatsMap
      \<and> missStats (run_cache ops' (NewCache False srv')) = newStatsMap" for ops' srv'
    using run_without_recording [of "NewCache False srv'" ops'] by (simp add: NewCache_fields)
  have ks: "cache_KeyStatistics (run_cache ops (NewCache False srv)) key = Inl NoStatistics"
    by (simp add: cache_KeyStatistics_def inv get_new)
  have st: "cache_Statistics (run_cache ops' (NewCache False srv')) = []" for ops' srv'
    by (simp add: Statistics_new inv)
  have hc: "hitCount (run_cache (ops @ [OpGet key latency]) (NewCache False srv))
       = hitCount (run_cache ops (NewCache False srv)) + 1"
    by (simp add: run_cache_snoc cache_Get_fields)
  have hl: "hitLatency (run_cache (ops @ [OpGet key latency]) (NewCache False srv))
       = hitLatency (run_cache ops (NewCache False srv)) + latency"
    by (simp add: run_cache_snoc cache_Get_fields)
  have ex: "cache_AverageHitLatency (\<lambda>x. x)
        (run_cache [OpSet ''k'' (Some (VStr ''v'')), OpGet ''k'' 5] (NewCache False empty_store)) = 5"
    by (simp add: cache_AverageHitLatency_def run_cache_def cache_Get_fields cache_Set_fields(1-5)
        NewCache_fields)
  show ?thesis using inv [of ops srv] ks st hc hl ex by simp
qed

section \<open>The rate limiters\<close>

lemma sint_diff_exact:
  fixes a b :: "64 word"
  assumes "- (2 ^ 63) \<le> sint a - sint b" and "0 \<le> sint (a - b)"
  shows "sint (a - b) = sint a - sint b"
proof -
  have ra: "- (2 ^ 63) \<le> sint a" "sint a < 2 ^ 63" using sint_in_range [of a] by simp_all
  have rb: "- (2 ^ 63) \<le> sint b" "sint b < 2 ^ 63" using sint_in_range [of b] by simp_all
  have s: "sint (a - b) = signed_take_bit 63 (sint a - sint b)"
    by (simp add: sint_word_diff)
  show ?thesis
  proof (cases "sint a - sint b < 2 ^ 63")
    case True
    with assms(1) s show ?thesis by (simp add: signed_take_bit_int_eq_self)
  next
    case False
    have "signed_take_bit 63 (sint a - sint b)
        = take_bit 64 (sint a - sint b + 2 ^ 63) - 2 ^ 63"
      by (simp add: signed_take_bit_eq_take_bit_shift)
    also have "take_bit 64 (sint a - sint b + 2 ^ 63)
        = (sint a - sint b + 2 ^ 63) mod 2 ^ 64"
      by (simp add: take_bit_eq_mod)
    also have "(sint a - sint b + 2 ^ 63) mod 2 ^ 64
        = (sint a - sint b + 2 ^ 63 - 2 ^ 64) mod 2 ^ 64"
      by (rule minus_mod_self2 [symmetric])
    also have "\<dots> = sint a - sint b + 2 ^ 63 - 2 ^ 64"
      using False ra rb by (intro mod_pos_pos_trivial) simp_all
    finally have "sint (a - b) = sint a - sint b - 2 ^ 64" using s by simp
    with ra rb assms(2) show ?thesis by simp
  qed
qed

lemma healthy_faults_update: "healthy (s\<lparr>kv := m\<rparr>) = healthy s"
  by (simp add: healthy_def)

lemma healthy_tl_iff: "healthy s \<Longrightarrow> healthy (s\<lparr>faults := tl (faults s), kv := m\<rparr>)"
  using healthy_tl [of s] by (simp add: healthy_def)

lemma Client_SetNX_healthy:
  "healthy r \<Longrightarrow> 0 \<le> expiration \<Longrightarrow>
   Client_SetNX r key v expiration =
     (Inr (kv r key = None),
      r\<lparr>faults := tl (faults r),
        kv := (if kv r key = None
               then (kv r)(key \<mapsto> \<lparr>payload = render v, expiry = ttl_of expiration\<rparr>)
               else kv r)\<rparr>)"
  by (simp add: Client_SetNX_def round_trip_healthy cmd_setnx_def)

lemma Client_Get_healthy:
  "healthy r \<Longrightarrow>
   Client_Get r key =
     (((case kv r key of None \<Rightarrow> [] | Some e \<Rightarrow> payload e),
       (case kv r key of None \<Rightarrow> Some RedisNil | Some e \<Rightarrow> None)),
      r\<lparr>faults := tl (faults r)\<rparr>)"
  by (simp add: Client_Get_def round_trip_healthy split: option.splits)

lemma cmd_decrby_counter:
  assumes "m key = Some e" and "payload e = show_int (sint (cur :: 64 word))"
    and "- (2 ^ 63) \<le> sint cur - n" and "sint cur - n < 2 ^ 63"
  shows "cmd_decrby m key n =
     (Inr (word_of_int (sint cur - n)),
      m(key \<mapsto> \<lparr>payload = show_int (sint cur - n), expiry = expiry e\<rparr>))"
  using assms by (simp add: cmd_decrby_def redis_int_show_sint)

lemma Client_DecrBy_healthy:
  "healthy r \<Longrightarrow>
   Client_DecrBy r key decrement =
     (fst (cmd_decrby (kv r) key (sint decrement)),
      r\<lparr>faults := tl (faults r), kv := snd (cmd_decrby (kv r) key (sint decrement))\<rparr>)"
  by (simp add: Client_DecrBy_def round_trip_healthy split: prod.splits)

text \<open>
  The counting limiter on a store that answers. \<open>m0\<close> is the content of the store after
  the first round trip, which creates the counter when the key is absent.
\<close>

lemma CountRateLimiter_core:
  assumes h: "healthy r"
    and m0: "m0 = (if kv r key = None
                   then (kv r)(key \<mapsto> \<lparr>payload = show_int (sint v), expiry = ttl_of expiration\<rparr>)
                   else kv r)"
    and k: "m0 key = Some e" and p: "payload e = show_int (sint cur)"
    and e0: "0 \<le> expiration"
  shows "sint (cur - decrement) < 0 \<Longrightarrow>
      RedisClient_CountRateLimiter r key v decrement expiration
        = (Inr (cur - decrement), r\<lparr>faults := tl (tl (faults r)), kv := m0\<rparr>)"
    and "0 \<le> sint (cur - decrement) \<Longrightarrow> - (2 ^ 63) \<le> sint cur - sint decrement \<Longrightarrow>
      RedisClient_CountRateLimiter r key v decrement expiration
        = (Inr (cur - decrement),
           r\<lparr>faults := tl (tl (tl (faults r))),
             kv := m0(key \<mapsto> \<lparr>payload = show_int (sint (cur - decrement)),
                                 expiry = expiry e\<rparr>)\<rparr>)"
proof -
  let ?r1 = "r\<lparr>faults := tl (faults r), kv := m0\<rparr>"
  let ?r2 = "r\<lparr>faults := tl (tl (faults r)), kv := m0\<rparr>"
  have h1: "healthy ?r1" using h by (rule healthy_tl_iff)
  have h2: "healthy ?r2" using healthy_tl_iff [OF h1, of m0] by simp
  have pre: "Client_SetNX r key (Some (VInt (sint v))) expiration = (Inr (kv r key = None), ?r1)"
    using h e0 by (simp add: Client_SetNX_healthy m0 render_def)
  have get: "Client_Get ?r1 key = ((show_int (sint cur), None), ?r2)"
    using h1 k p by (simp add: Client_Get_healthy)
  have at: "Atoi (show_int (sint cur)) = Inr cur"
    by (simp add: Atoi_def parse_int64_show_sint)
  show "RedisClient_CountRateLimiter r key v decrement expiration = (Inr (cur - decrement), ?r2)"
    if "sint (cur - decrement) < 0"
    using that by (simp add: RedisClient_CountRateLimiter_def pre get at Let_def)
  show "RedisClient_CountRateLimiter r key v decrement expiration
        = (Inr (cur - decrement),
           r\<lparr>faults := tl (tl (tl (faults r))),
             kv := m0(key \<mapsto> \<lparr>payload = show_int (sint (cur - decrement)),
                                 expiry = expiry e\<rparr>)\<rparr>)"
    if nn: "0 \<le> sint (cur - decrement)" and nu: "- (2 ^ 63) \<le> sint cur - sint decrement"
  proof -
    have ex: "sint (cur - decrement) = sint cur - sint decrement"
      using nu nn by (rule sint_diff_exact)
    have up: "sint cur - sint decrement < 2 ^ 63"
      using sint_in_range [of "cur - decrement"] ex by simp
    have dec: "cmd_decrby m0 key (sint decrement)
        = (Inr (word_of_int (sint cur - sint decrement)),
           m0(key \<mapsto> \<lparr>payload = show_int (sint cur - sint decrement), expiry = expiry e\<rparr>))"
      using k p nu up by (rule cmd_decrby_counter)
    have db: "Client_DecrBy ?r2 key decrement
        = (Inr (word_of_int (sint cur - sint decrement)),
           r\<lparr>faults := tl (tl (tl (faults r))),
             kv := m0(key \<mapsto> \<lparr>payload = show_int (sint cur - sint decrement),
                                 expiry = expiry e\<rparr>)\<rparr>)"
      using h2 by (simp add: Client_DecrBy_healthy dec)
    from nn show ?thesis
      by (simp add: RedisClient_CountRateLimiter_def pre get at Let_def db ex)
  qed
qed

lemma holds_counterD:
  "holds_counter r key cur \<Longrightarrow> \<exists>e. kv r key = Some e \<and> payload e = show_int (sint cur)"
  by (cases "kv r key") (simp_all add: holds_counter_def)

lemma healthy_tl2: "healthy r \<Longrightarrow> healthy (r\<lparr>faults := tl (tl (faults r)), kv := m\<rparr>)"
  using healthy_tl_iff [OF healthy_tl_iff [of r m], of m] by simp

lemma healthy_tl3: "healthy r \<Longrightarrow> healthy (r\<lparr>faults := tl (tl (tl (faults r))), kv := m\<rparr>)"
  using healthy_tl_iff [OF healthy_tl2 [of r m], of m] by simp

lemma CountRateLimiter_negative:
  assumes h: "healthy r" and c: "kv r key = None \<and> cur = v \<or> holds_counter r key cur"
    and n: "sint (cur - decrement) < 0" and e0: "0 \<le> expiration"
  shows "fst (RedisClient_CountRateLimiter r key v decrement expiration) = Inr (cur - decrement)"
    and "kv (snd (RedisClient_CountRateLimiter r key v decrement expiration))
          = (if kv r key = None
             then (kv r)(key \<mapsto> \<lparr>payload = show_int (sint v), expiry = ttl_of expiration\<rparr>)
             else kv r)"
    and "holds_counter (snd (RedisClient_CountRateLimiter r key v decrement expiration)) key cur"
    and "healthy (snd (RedisClient_CountRateLimiter r key v decrement expiration))"
proof -
  define m0 where "m0 = (if kv r key = None
      then (kv r)(key \<mapsto> \<lparr>payload = show_int (sint v), expiry = ttl_of expiration\<rparr>)
      else kv r)"
  have "\<exists>e. m0 key = Some e \<and> payload e = show_int (sint cur)"
    using c holds_counterD [of r key cur] by (auto simp: m0_def holds_counter_def)
  then obtain e where k: "m0 key = Some e" and p: "payload e = show_int (sint cur)" by blast
  have eq: "RedisClient_CountRateLimiter r key v decrement expiration
      = (Inr (cur - decrement), r\<lparr>faults := tl (tl (faults r)), kv := m0\<rparr>)"
    using CountRateLimiter_core(1) [OF h m0_def k p e0 n] .
  show "fst (RedisClient_CountRateLimiter r key v decrement expiration) = Inr (cur - decrement)"
    by (simp add: eq)
  show "kv (snd (RedisClient_CountRateLimiter r key v decrement expiration))
          = (if kv r key = None
             then (kv r)(key \<mapsto> \<lparr>payload = show_int (sint v), expiry = ttl_of expiration\<rparr>)
             else kv r)"
    by (simp add: eq m0_def)
  show "holds_counter (snd (RedisClient_CountRateLimiter r key v decrement expiration)) key cur"
    using k p by (simp add: eq holds_counter_def)
  show "healthy (snd (RedisClient_CountRateLimiter r key v decrement expiration))"
    using healthy_tl2 [OF h] by (simp add: eq)
qed

lemma CountRateLimiter_decrements:
  assumes h: "healthy r" and c: "kv r key = None \<and> cur = v \<or> holds_counter r key cur"
    and nn: "0 \<le> sint (cur - decrement)" and nu: "- (2 ^ 63) \<le> sint cur - sint decrement"
    and e0: "0 \<le> expiration"
  shows "fst (RedisClient_CountRateLimiter r key v decrement expiration) = Inr (cur - decrement)"
    and "sint (cur - decrement) = sint cur - sint decrement"
    and "holds_counter (snd (RedisClient_CountRateLimiter r key v decrement expiration)) key
           (cur - decrement)"
    and "k' \<noteq> key \<Longrightarrow>
         kv (snd (RedisClient_CountRateLimiter r key v decrement expiration)) k' = kv r k'"
    and "healthy (snd (RedisClient_CountRateLimiter r key v decrement expiration))"
proof -
  define m0 where "m0 = (if kv r key = None
      then (kv r)(key \<mapsto> \<lparr>payload = show_int (sint v), expiry = ttl_of expiration\<rparr>)
      else kv r)"
  have "\<exists>e. m0 key = Some e \<and> payload e = show_int (sint cur)"
    using c holds_counterD [of r key cur] by (auto simp: m0_def holds_counter_def)
  then obtain e where k: "m0 key = Some e" and p: "payload e = show_int (sint cur)" by blast
  have eq: "RedisClient_CountRateLimiter r key v decrement expiration
      = (Inr (cur - decrement),
         r\<lparr>faults := tl (tl (tl (faults r))),
           kv := m0(key \<mapsto> \<lparr>payload = show_int (sint (cur - decrement)), expiry = expiry e\<rparr>)\<rparr>)"
    using CountRateLimiter_core(2) [OF h m0_def k p e0 nn nu] .
  show "fst (RedisClient_CountRateLimiter r key v decrement expiration) = Inr (cur - decrement)"
    by (simp add: eq)
  show "sint (cur - decrement) = sint cur - sint decrement"
    using nu nn by (rule sint_diff_exact)
  show "holds_counter (snd (RedisClient_CountRateLimiter r key v decrement expiration)) key
           (cur - decrement)"
    by (simp add: eq holds_counter_def)
  show "kv (snd (RedisClient_CountRateLimiter r key v decrement expiration)) k' = kv r k'"
    if "k' \<noteq> key"
    using that by (simp add: eq m0_def)
  show "healthy (snd (RedisClient_CountRateLimiter r key v decrement expiration))"
    using healthy_tl3 [OF h] by (simp add: eq)
qed

lemma sequentially_3:
  "sequentially 3 f r =
     ([fst (f r), fst (f (snd (f r))), fst (f (snd (f (snd (f r)))))],
      snd (f (snd (f (snd (f r))))))"
  by (simp add: numeral_3_eq_3 case_prod_beta)

lemma three_calls:
  fixes expiration :: int
  assumes e0: "0 \<le> expiration"
  defines "f \<equiv> (\<lambda>r. RedisClient_CountRateLimiter r ''k'' 10 4 expiration)"
  shows "fst (sequentially 3 f empty_store) = [Inr 6, Inr 2, Inr (- 2)]"
    and "holds_counter (snd (sequentially 3 f empty_store)) ''k'' 2"
proof -
  define r1 where "r1 = snd (f empty_store)"
  define r2 where "r2 = snd (f r1)"
  define r3 where "r3 = snd (f r2)"
  have c0: "kv empty_store ''k'' = None \<and> (10 :: 64 word) = 10 \<or> holds_counter empty_store ''k'' 10"
    by (simp add: empty_store_def)
  have a1: "0 \<le> sint ((10 :: 64 word) - 4)" "- (2 ^ 63) \<le> sint (10 :: 64 word) - sint (4 :: 64 word)"
    by simp_all
  have x1: "fst (f empty_store) = Inr 6" and h1: "healthy r1" and c1: "holds_counter r1 ''k'' 6"
    using CountRateLimiter_decrements(1,3,5) [OF healthy_empty_store c0 a1 e0]
    by (simp_all add: f_def r1_def)
  have a2: "0 \<le> sint ((6 :: 64 word) - 4)" "- (2 ^ 63) \<le> sint (6 :: 64 word) - sint (4 :: 64 word)"
    by simp_all
  have x2: "fst (f r1) = Inr 2" and h2: "healthy r2" and c2: "holds_counter r2 ''k'' 2"
    using CountRateLimiter_decrements(1,3,5) [OF h1 disjI2 [OF c1] a2 e0, of 10]
    by (simp_all add: f_def r2_def)
  have a3: "sint ((2 :: 64 word) - 4) < 0" by simp
  have x3: "fst (f r2) = Inr (- 2)" and c3: "holds_counter r3 ''k'' 2"
    using CountRateLimiter_negative(1,3) [OF h2 disjI2 [OF c2] a3 e0, of 10]
    by (simp_all add: f_def r3_def)
  show "fst (sequentially 3 f empty_store) = [Inr 6, Inr 2, Inr (- 2)]"
    using x1 x2 x3 by (simp add: sequentially_3 r1_def r2_def)
  show "holds_counter (snd (sequentially 3 f empty_store)) ''k'' 2"
    using c3 by (simp add: sequentially_3 r1_def r2_def r3_def)
qed

text \<open>
  Claim C1. \<open>CountRateLimiter\<close>, called with an expiration that is not negative, on a
  store that answers and where the key is absent or holds a counter: it creates the key with the initial budget if it is absent, reads
  the current value and returns current minus decrement (64-bit subtraction). When that
  is negative, the stored counter stays at the current value: the store is as the
  creation step left it. Otherwise the stored counter becomes current minus decrement
  and no other key changes; this needs that the difference does not fall below the
  least 64-bit integer, where the store refuses the decrement. With budget 10 and
  decrement 4, three calls on a fresh key return 6, 2 and -2, and the stored counter
  is 2 after the third.
\<close>

theorem CountRateLimiter_bounded:
  "(healthy r \<and> (kv r key = None \<and> cur = v \<or> holds_counter r key cur)
      \<and> sint (cur - decrement) < 0 \<and> 0 \<le> expiration \<longrightarrow>
        fst (RedisClient_CountRateLimiter r key v decrement expiration) = Inr (cur - decrement)
        \<and> kv (snd (RedisClient_CountRateLimiter r key v decrement expiration))
            = (if kv r key = None
               then (kv r)(key \<mapsto> \<lparr>payload = show_int (sint v), expiry = ttl_of expiration\<rparr>)
               else kv r)
        \<and> holds_counter (snd (RedisClient_CountRateLimiter r key v decrement expiration)) key cur
        \<and> healthy (snd (RedisClient_CountRateLimiter r key v decrement expiration)))
   \<and> (healthy r \<and> (kv r key = None \<and> cur = v \<or> holds_counter r key cur)
      \<and> 0 \<le> sint (cur - decrement) \<and> - (2 ^ 63) \<le> sint cur - sint decrement
      \<and> 0 \<le> expiration \<longrightarrow>
        fst (RedisClient_CountRateLimiter r key v decrement expiration) = Inr (cur - decrement)
        \<and> sint (cur - decrement) = sint cur - sint decrement
        \<and> holds_counter (snd (RedisClient_CountRateLimiter r key v decrement expiration)) key
            (cur - decrement)
        \<and> (\<forall>k'. k' \<noteq> key \<longrightarrow>
              kv (snd (RedisClient_CountRateLimiter r key v decrement expiration)) k' = kv r k')
        \<and> healthy (snd (RedisClient_CountRateLimiter r key v decrement expiration)))
   \<and> (0 \<le> expiration \<longrightarrow>
        fst (sequentially 3 (\<lambda>s. RedisClient_CountRateLimiter s ''k'' 10 4 expiration) empty_store)
          = [Inr 6, Inr 2, Inr (- 2)]
        \<and> holds_counter
            (snd (sequentially 3 (\<lambda>s. RedisClient_CountRateLimiter s ''k'' 10 4 expiration)
                   empty_store))
            ''k'' 2)"
proof -
  have neg: "healthy r \<and> (kv r key = None \<and> cur = v \<or> holds_counter r key cur)
      \<and> sint (cur - decrement) < 0 \<and> 0 \<le> expiration \<longrightarrow>
        fst (RedisClient_CountRateLimiter r key v decrement expiration) = Inr (cur - decrement)
        \<and> kv (snd (RedisClient_CountRateLimiter r key v decrement expiration))
            = (if kv r key = None
               then (kv r)(key \<mapsto> \<lparr>payload = show_int (sint v), expiry = ttl_of expiration\<rparr>)
               else kv r)
        \<and> holds_counter (snd (RedisClient_CountRateLimiter r key v decrement expiration)) key cur
        \<and> healthy (snd (RedisClient_CountRateLimiter r key v decrement expiration))"
  proof (intro impI, elim conjE)
    assume h: "healthy r" and c: "kv r key = None \<and> cur = v \<or> holds_counter r key cur"
      and n: "sint (cur - decrement) < 0" and e0: "0 \<le> expiration"
    from CountRateLimiter_negative [OF h c n e0]
    show "fst (RedisClient_CountRateLimiter r key v decrement expiration) = Inr (cur - decrement)
        \<and> kv (snd (RedisClient_CountRateLimiter r key v decrement expiration))
            = (if kv r key = None
               then (kv r)(key \<mapsto> \<lparr>payload = show_int (sint v), expiry = ttl_of expiration\<rparr>)
               else kv r)
        \<and> holds_counter (snd (RedisClient_CountRateLimiter r key v decrement expiration)) key cur
        \<and> healthy (snd (RedisClient_CountRateLimiter r key v decrement expiration))"
      by (intro conjI)
  qed
  have dec: "healthy r \<and> (kv r key = None \<and> cur = v \<or> holds_counter r key cur)
      \<and> 0 \<le> sint (cur - decrement) \<and> - (2 ^ 63) \<le> sint cur - sint decrement
      \<and> 0 \<le> expiration \<longrightarrow>
        fst (RedisClient_CountRateLimiter r key v decrement expiration) = Inr (cur - decrement)
        \<and> sint (cur - decrement) = sint cur - sint decrement
        \<and> holds_counter (snd (RedisClient_CountRateLimiter r key v decrement expiration)) key
            (cur - decrement)
        \<and> (\<forall>k'. k' \<noteq> key \<longrightarrow>
              kv (snd (RedisClient_CountRateLimiter r key v decrement expiration)) k' = kv r k')
        \<and> healthy (snd (RedisClient_CountRateLimiter r key v decrement expiration))"
  proof (intro impI, elim conjE)
    assume h: "healthy r" and c: "kv r key = None \<and> cur = v \<or> holds_counter r key cur"
      and nn: "0 \<le> sint (cur - decrement)" and nu: "- (2 ^ 63) \<le> sint cur - sint decrement"
      and e0: "0 \<le> expiration"
    note d = CountRateLimiter_decrements [OF h c nn nu e0]
    show "fst (RedisClient_CountRateLimiter r key v decrement expiration) = Inr (cur - decrement)
        \<and> sint (cur - decrement) = sint cur - sint decrement
        \<and> holds_counter (snd (RedisClient_CountRateLimiter r key v decrement expiration)) key
            (cur - decrement)
        \<and> (\<forall>k'. k' \<noteq> key \<longrightarrow>
              kv (snd (RedisClient_CountRateLimiter r key v decrement expiration)) k' = kv r k')
        \<and> healthy (snd (RedisClient_CountRateLimiter r key v decrement expiration))"
      using d by simp
  qed
  have ex: "0 \<le> expiration \<longrightarrow>
        fst (sequentially 3 (\<lambda>s. RedisClient_CountRateLimiter s ''k'' 10 4 expiration) empty_store)
          = [Inr 6, Inr 2, Inr (- 2)]
        \<and> holds_counter
            (snd (sequentially 3 (\<lambda>s. RedisClient_CountRateLimiter s ''k'' 10 4 expiration)
                   empty_store))
            ''k'' 2"
    using three_calls [of expiration] by simp
  show ?thesis
    by (intro conjI neg dec ex)
qed

lemma show_int_2: "show_int 2 = ''2''"
  by code_simp

theorem CountRateLimiter_bounded_witness:
  "fst (RedisClient_CountRateLimiter empty_store ''k'' 10 4 60) = Inr 6
   \<and> holds_counter (snd (RedisClient_CountRateLimiter empty_store ''k'' 10 4 60)) ''k'' 6
   \<and> fst (RedisClient_CountRateLimiter
        \<lparr>kv = [''k'' \<mapsto> \<lparr>payload = ''2'', expiry = Some 60\<rparr>], faults = []\<rparr> ''k'' 10 4 60)
       = Inr (- 2)
   \<and> kv (snd (RedisClient_CountRateLimiter
        \<lparr>kv = [''k'' \<mapsto> \<lparr>payload = ''2'', expiry = Some 60\<rparr>], faults = []\<rparr> ''k'' 10 4 60))
       = [''k'' \<mapsto> \<lparr>payload = ''2'', expiry = Some 60\<rparr>]"
proof -
  note t1 = CountRateLimiter_bounded [of empty_store "''k''" 10 10 4 60,
      THEN conjunct2, THEN conjunct1]
  note t2 = CountRateLimiter_bounded
      [of "\<lparr>kv = [''k'' \<mapsto> \<lparr>payload = ''2'', expiry = Some 60\<rparr>], faults = []\<rparr>" "''k''" 2 10 4 60,
      THEN conjunct1]
  have w1: "fst (RedisClient_CountRateLimiter empty_store ''k'' 10 4 60) = Inr 6
      \<and> holds_counter (snd (RedisClient_CountRateLimiter empty_store ''k'' 10 4 60)) ''k'' 6"
    using t1 by (simp add: healthy_empty_store) (simp add: empty_store_def)
  have w2: "fst (RedisClient_CountRateLimiter
        \<lparr>kv = [''k'' \<mapsto> \<lparr>payload = ''2'', expiry = Some 60\<rparr>], faults = []\<rparr> ''k'' 10 4 60)
       = Inr (- 2)
   \<and> kv (snd (RedisClient_CountRateLimiter
        \<lparr>kv = [''k'' \<mapsto> \<lparr>payload = ''2'', expiry = Some 60\<rparr>], faults = []\<rparr> ''k'' 10 4 60))
       = [''k'' \<mapsto> \<lparr>payload = ''2'', expiry = Some 60\<rparr>]"
    using t2 by (simp add: healthy_def holds_counter_def show_int_2)
  from w1 w2 show ?thesis by simp
qed

lemma Pipelined_healthy:
  "healthy r \<Longrightarrow> 0 \<le> expiration \<Longrightarrow>
   Client_Pipelined r [SetNX_cmd key v expiration, Decr_cmd key] =
     ((case fst (cmd_decrby
                  (if kv r key = None
                   then (kv r)(key \<mapsto> \<lparr>payload = render v, expiry = ttl_of expiration\<rparr>)
                   else kv r) key 1) of
         Inl e \<Rightarrow> Some e | Inr n \<Rightarrow> None),
      r\<lparr>faults := tl (faults r),
        kv := snd (cmd_decrby
                    (if kv r key = None
                     then (kv r)(key \<mapsto> \<lparr>payload = render v, expiry = ttl_of expiration\<rparr>)
                     else kv r) key 1)\<rparr>)"
  by (simp add: Client_Pipelined_def round_trip_healthy cmd_setnx_def
      split: prod.splits sum.splits)

lemma render_int: "render (Some (VInt i)) = show_int i"
  by (simp add: render_def)

lemma word_of_sint_minus_1: "word_of_int (sint (cur :: 64 word) - 1) = cur - 1"
  by simp

lemma RateLimiter_core:
  assumes h: "healthy r"
    and m0: "m0 = (if kv r key = None
                   then (kv r)(key \<mapsto> \<lparr>payload = show_int (sint v), expiry = ttl_of expiration\<rparr>)
                   else kv r)"
    and k: "m0 key = Some e" and p: "payload e = show_int (sint cur)"
    and lo: "- (2 ^ 63) < sint cur" and e0: "0 \<le> expiration"
  shows "RedisClient_RateLimiter r key v expiration
      = (Inr (cur - 1),
         r\<lparr>faults := tl (tl (faults r)),
           kv := m0(key \<mapsto> \<lparr>payload = show_int (sint cur - 1), expiry = expiry e\<rparr>)\<rparr>)"
    and "sint (cur - 1) = sint cur - 1"
proof -
  have up: "sint cur - 1 < 2 ^ 63" and lo': "- (2 ^ 63) \<le> sint cur - 1"
    using sint_in_range [of cur] lo by simp_all
  have dec: "cmd_decrby m0 key 1
      = (Inr (word_of_int (sint cur - 1)),
         m0(key \<mapsto> \<lparr>payload = show_int (sint cur - 1), expiry = expiry e\<rparr>))"
    using k p lo' up by (rule cmd_decrby_counter)
  let ?r1 = "r\<lparr>faults := tl (faults r),
      kv := m0(key \<mapsto> \<lparr>payload = show_int (sint cur - 1), expiry = expiry e\<rparr>)\<rparr>"
  have pipe0: "Client_Pipelined r [SetNX_cmd key (Some (VInt (sint v))) expiration, Decr_cmd key]
      = ((case fst (cmd_decrby m0 key 1) of Inl e \<Rightarrow> Some e | Inr n \<Rightarrow> None),
         r\<lparr>faults := tl (faults r), kv := snd (cmd_decrby m0 key 1)\<rparr>)"
    unfolding m0 by (simp only: Pipelined_healthy [OF h e0] render_int)
  have pipe: "Client_Pipelined r [SetNX_cmd key (Some (VInt (sint v))) expiration, Decr_cmd key]
      = (None, ?r1)"
    by (simp add: pipe0 dec)
  have h1: "healthy ?r1" using h by (rule healthy_tl_iff)
  have get: "Client_Get ?r1 key
      = ((show_int (sint cur - 1), None),
         r\<lparr>faults := tl (tl (faults r)),
           kv := m0(key \<mapsto> \<lparr>payload = show_int (sint cur - 1), expiry = expiry e\<rparr>)\<rparr>)"
    using h1 by (simp add: Client_Get_healthy)
  have pr: "parse_int64 (show_int (sint cur - 1)) = Inr (cur - 1)"
    using parse_int64_show_int [OF lo' up] by simp
  show "RedisClient_RateLimiter r key v expiration
      = (Inr (cur - 1),
         r\<lparr>faults := tl (tl (faults r)),
           kv := m0(key \<mapsto> \<lparr>payload = show_int (sint cur - 1), expiry = expiry e\<rparr>)\<rparr>)"
    by (simp add: RedisClient_RateLimiter_def pipe get pr)
  show "sint (cur - 1) = sint cur - 1"
    using sint_of_int_range [OF lo' up] by simp
qed

lemma RateLimiter_step:
  assumes h: "healthy r" and c: "kv r key = None \<and> cur = v \<or> holds_counter r key cur"
    and lo: "- (2 ^ 63) < sint cur" and e0: "0 \<le> expiration"
  shows "fst (RedisClient_RateLimiter r key v expiration) = Inr (cur - 1)"
    and "sint (cur - 1) = sint cur - 1"
    and "holds_counter (snd (RedisClient_RateLimiter r key v expiration)) key (cur - 1)"
    and "map_option expiry (kv (snd (RedisClient_RateLimiter r key v expiration)) key)
          = (case kv r key of None \<Rightarrow> Some (ttl_of expiration) | Some e \<Rightarrow> Some (expiry e))"
    and "k' \<noteq> key \<Longrightarrow> kv (snd (RedisClient_RateLimiter r key v expiration)) k' = kv r k'"
    and "healthy (snd (RedisClient_RateLimiter r key v expiration))"
proof -
  define m0 where "m0 = (if kv r key = None
      then (kv r)(key \<mapsto> \<lparr>payload = show_int (sint v), expiry = ttl_of expiration\<rparr>)
      else kv r)"
  have "\<exists>e. m0 key = Some e \<and> payload e = show_int (sint cur)"
    using c holds_counterD [of r key cur] by (auto simp: m0_def holds_counter_def)
  then obtain e where k: "m0 key = Some e" and p: "payload e = show_int (sint cur)" by blast
  note core = RateLimiter_core [OF h m0_def k p lo e0]
  show "fst (RedisClient_RateLimiter r key v expiration) = Inr (cur - 1)"
    by (simp add: core(1))
  show s: "sint (cur - 1) = sint cur - 1" by (rule core(2))
  show "holds_counter (snd (RedisClient_RateLimiter r key v expiration)) key (cur - 1)"
    by (simp add: core(1) holds_counter_def s)
  show "map_option expiry (kv (snd (RedisClient_RateLimiter r key v expiration)) key)
          = (case kv r key of None \<Rightarrow> Some (ttl_of expiration) | Some e \<Rightarrow> Some (expiry e))"
    using k by (auto simp: core(1) m0_def split: option.splits if_splits)
  show "kv (snd (RedisClient_RateLimiter r key v expiration)) k' = kv r k'" if "k' \<noteq> key"
    using that by (simp add: core(1) m0_def)
  show "healthy (snd (RedisClient_RateLimiter r key v expiration))"
    using healthy_tl2 [OF h] by (simp add: core(1))
qed

lemma sequentially_Suc:
  "sequentially (Suc n) f r =
     (fst (f r) # fst (sequentially n f (snd (f r))), snd (sequentially n f (snd (f r))))"
  by (simp add: case_prod_beta)

lemma RateLimiter_calls:
  assumes "healthy r" and "kv r key = None \<and> cur = v \<or> holds_counter r key cur"
    and "- (2 ^ 63) < sint cur - int n" and "0 \<le> expiration"
  shows "fst (sequentially n (\<lambda>s. RedisClient_RateLimiter s key v expiration) r)
           = map (\<lambda>i. Inr (cur - of_nat (Suc i))) [0..<n]
         \<and> (0 < n \<longrightarrow> holds_counter
               (snd (sequentially n (\<lambda>s. RedisClient_RateLimiter s key v expiration) r)) key
               (cur - of_nat n))"
  using assms
proof (induction n arbitrary: r cur)
  case 0
  show ?case by simp
next
  case (Suc n)
  have lo: "- (2 ^ 63) < sint cur" using Suc.prems(3) by simp
  note st = RateLimiter_step(1,3,6) [OF Suc.prems(1,2) lo Suc.prems(4)]
  note sd = RateLimiter_step(2) [OF Suc.prems(1,2) lo Suc.prems(4)]
  have lo1: "- (2 ^ 63) < sint (cur - 1) - int n" using Suc.prems(3) sd by simp
  note ih = Suc.IH [OF st(3) disjI2 [OF st(2)] lo1 Suc.prems(4)]
  have m: "map (\<lambda>i. Inr (cur - of_nat (Suc i)) :: err + 64 word) [0..<Suc n]
      = Inr (cur - 1) # map (\<lambda>i. Inr (cur - 1 - of_nat (Suc i))) [0..<n]"
    by (simp only: map_upt_Suc) (simp add: algebra_simps)
  have e: "cur - 1 - of_nat n = cur - of_nat (Suc n)" by (simp add: algebra_simps)
  show ?case
  proof (cases "n = 0")
    case True
    with st(1,2) show ?thesis by (simp add: sequentially_Suc del: sequentially.simps(2))
  next
    case False
    with ih st(1) m e show ?thesis by (simp only: sequentially_Suc fst_conv snd_conv) simp
  qed
qed

lemma five_calls:
  assumes e0: "0 \<le> expiration"
  shows "fst (sequentially 5 (\<lambda>s. RedisClient_RateLimiter s ''k'' 3 expiration) empty_store)
     = [Inr 2, Inr 1, Inr 0, Inr (- 1), Inr (- 2)]"
    and "holds_counter
     (snd (sequentially 5 (\<lambda>s. RedisClient_RateLimiter s ''k'' 3 expiration) empty_store))
     ''k'' (- 2)"
proof -
  have c: "kv empty_store ''k'' = None \<and> (3 :: 64 word) = 3 \<or> holds_counter empty_store ''k'' 3"
    by (simp add: empty_store_def)
  have lo: "- (2 ^ 63) < sint (3 :: 64 word) - int 5" by simp
  note t = RateLimiter_calls [OF healthy_empty_store c lo e0]
  have u: "[0..<5] = [0, 1, 2, 3, 4]" by code_simp
  show "fst (sequentially 5 (\<lambda>s. RedisClient_RateLimiter s ''k'' 3 expiration) empty_store)
     = [Inr 2, Inr 1, Inr 0, Inr (- 1), Inr (- 2)]"
    using t [THEN conjunct1] by (simp add: u)
  show "holds_counter
     (snd (sequentially 5 (\<lambda>s. RedisClient_RateLimiter s ''k'' 3 expiration) empty_store))
     ''k'' (- 2)"
    using t [THEN conjunct2] by simp
qed

text \<open>
  Claim C2. \<open>RateLimiter\<close>, called with an expiration that is not negative, on a
  store that answers and where the key is absent or holds a counter: it creates the key with the initial budget and the TTL only if the
  key is absent (a counter that is there keeps its value and its TTL), always
  decrements by 1 and returns the value after the decrement, which is the value the
  store then holds; no other key changes. There is no floor: \<open>n\<close> calls in a row return
  current - 1, ..., current - n, down to the least 64-bit integer, where the store
  refuses the decrement. With budget 3, five calls on a fresh key return 2, 1, 0, -1
  and -2.
\<close>

theorem RateLimiter_fixed_window:
  "(healthy r \<and> (kv r key = None \<and> cur = v \<or> holds_counter r key cur)
      \<and> - (2 ^ 63) < sint cur \<and> 0 \<le> expiration \<longrightarrow>
        fst (RedisClient_RateLimiter r key v expiration) = Inr (cur - 1)
        \<and> sint (cur - 1) = sint cur - 1
        \<and> holds_counter (snd (RedisClient_RateLimiter r key v expiration)) key (cur - 1)
        \<and> map_option expiry (kv (snd (RedisClient_RateLimiter r key v expiration)) key)
            = (case kv r key of None \<Rightarrow> Some (ttl_of expiration) | Some e \<Rightarrow> Some (expiry e))
        \<and> (\<forall>k'. k' \<noteq> key \<longrightarrow>
              kv (snd (RedisClient_RateLimiter r key v expiration)) k' = kv r k')
        \<and> healthy (snd (RedisClient_RateLimiter r key v expiration)))
   \<and> (healthy r \<and> (kv r key = None \<and> cur = v \<or> holds_counter r key cur)
      \<and> - (2 ^ 63) < sint cur - int n \<and> 0 \<le> expiration \<longrightarrow>
        fst (sequentially n (\<lambda>s. RedisClient_RateLimiter s key v expiration) r)
          = map (\<lambda>i. Inr (cur - of_nat (Suc i))) [0..<n])
   \<and> (0 \<le> expiration \<longrightarrow>
        fst (sequentially 5 (\<lambda>s. RedisClient_RateLimiter s ''k'' 3 expiration) empty_store)
          = [Inr 2, Inr 1, Inr 0, Inr (- 1), Inr (- 2)]
        \<and> holds_counter
            (snd (sequentially 5 (\<lambda>s. RedisClient_RateLimiter s ''k'' 3 expiration) empty_store))
            ''k'' (- 2))"
proof -
  have one: "healthy r \<and> (kv r key = None \<and> cur = v \<or> holds_counter r key cur)
      \<and> - (2 ^ 63) < sint cur \<and> 0 \<le> expiration \<longrightarrow>
        fst (RedisClient_RateLimiter r key v expiration) = Inr (cur - 1)
        \<and> sint (cur - 1) = sint cur - 1
        \<and> holds_counter (snd (RedisClient_RateLimiter r key v expiration)) key (cur - 1)
        \<and> map_option expiry (kv (snd (RedisClient_RateLimiter r key v expiration)) key)
            = (case kv r key of None \<Rightarrow> Some (ttl_of expiration) | Some e \<Rightarrow> Some (expiry e))
        \<and> (\<forall>k'. k' \<noteq> key \<longrightarrow>
              kv (snd (RedisClient_RateLimiter r key v expiration)) k' = kv r k')
        \<and> healthy (snd (RedisClient_RateLimiter r key v expiration))"
  proof (intro impI, elim conjE)
    assume h: "healthy r" and c: "kv r key = None \<and> cur = v \<or> holds_counter r key cur"
      and lo: "- (2 ^ 63) < sint cur" and e0: "0 \<le> expiration"
    note d = RateLimiter_step [OF h c lo e0]
    show "fst (RedisClient_RateLimiter r key v expiration) = Inr (cur - 1)
        \<and> sint (cur - 1) = sint cur - 1
        \<and> holds_counter (snd (RedisClient_RateLimiter r key v expiration)) key (cur - 1)
        \<and> map_option expiry (kv (snd (RedisClient_RateLimiter r key v expiration)) key)
            = (case kv r key of None \<Rightarrow> Some (ttl_of expiration) | Some e \<Rightarrow> Some (expiry e))
        \<and> (\<forall>k'. k' \<noteq> key \<longrightarrow>
              kv (snd (RedisClient_RateLimiter r key v expiration)) k' = kv r k')
        \<and> healthy (snd (RedisClient_RateLimiter r key v expiration))"
      using d by simp
  qed
  have many: "healthy r \<and> (kv r key = None \<and> cur = v \<or> holds_counter r key cur)
      \<and> - (2 ^ 63) < sint cur - int n \<and> 0 \<le> expiration \<longrightarrow>
        fst (sequentially n (\<lambda>s. RedisClient_RateLimiter s key v expiration) r)
          = map (\<lambda>i. Inr (cur - of_nat (Suc i))) [0..<n]"
  proof (intro impI, elim conjE)
    assume h: "healthy r" and c: "kv r key = None \<and> cur = v \<or> holds_counter r key cur"
      and lo: "- (2 ^ 63) < sint cur - int n" and e0: "0 \<le> expiration"
    from RateLimiter_calls [OF h c lo e0]
    show "fst (sequentially n (\<lambda>s. RedisClient_RateLimiter s key v expiration) r)
          = map (\<lambda>i. Inr (cur - of_nat (Suc i))) [0..<n]"
      by (rule conjunct1)
  qed
  have ex: "0 \<le> expiration \<longrightarrow>
        fst (sequentially 5 (\<lambda>s. RedisClient_RateLimiter s ''k'' 3 expiration) empty_store)
          = [Inr 2, Inr 1, Inr 0, Inr (- 1), Inr (- 2)]
        \<and> holds_counter
            (snd (sequentially 5 (\<lambda>s. RedisClient_RateLimiter s ''k'' 3 expiration) empty_store))
            ''k'' (- 2)"
    using five_calls [of expiration] by simp
  show ?thesis
    by (intro conjI one many ex)
qed

lemma show_int_7: "show_int 7 = ''7''"
  by code_simp

theorem RateLimiter_fixed_window_witness:
  "fst (RedisClient_RateLimiter empty_store ''k'' 3 60) = Inr 2
   \<and> map_option expiry (kv (snd (RedisClient_RateLimiter empty_store ''k'' 3 60)) ''k'')
       = Some (Some 60)
   \<and> fst (RedisClient_RateLimiter
        \<lparr>kv = [''k'' \<mapsto> \<lparr>payload = ''7'', expiry = Some 10\<rparr>], faults = []\<rparr> ''k'' 3 60) = Inr 6
   \<and> map_option expiry (kv (snd (RedisClient_RateLimiter
        \<lparr>kv = [''k'' \<mapsto> \<lparr>payload = ''7'', expiry = Some 10\<rparr>], faults = []\<rparr> ''k'' 3 60)) ''k'')
       = Some (Some 10)
   \<and> fst (sequentially 2 (\<lambda>s. RedisClient_RateLimiter s ''k'' 3 60) empty_store)
       = [Inr 2, Inr 1]"
proof -
  note t1 = RateLimiter_fixed_window [of empty_store "''k''" 3 3 60, THEN conjunct1]
  note t2 = RateLimiter_fixed_window
      [of "\<lparr>kv = [''k'' \<mapsto> \<lparr>payload = ''7'', expiry = Some 10\<rparr>], faults = []\<rparr>" "''k''" 7 3 60,
       THEN conjunct1]
  note t3 = RateLimiter_fixed_window [of empty_store "''k''" 3 3 60 2, THEN conjunct2, THEN conjunct1]
  have w1: "fst (RedisClient_RateLimiter empty_store ''k'' 3 60) = Inr 2
   \<and> map_option expiry (kv (snd (RedisClient_RateLimiter empty_store ''k'' 3 60)) ''k'')
       = Some (Some 60)"
    using t1 by (simp add: healthy_empty_store ttl_of_def) (simp add: empty_store_def)
  have w2: "fst (RedisClient_RateLimiter
        \<lparr>kv = [''k'' \<mapsto> \<lparr>payload = ''7'', expiry = Some 10\<rparr>], faults = []\<rparr> ''k'' 3 60) = Inr 6
   \<and> map_option expiry (kv (snd (RedisClient_RateLimiter
        \<lparr>kv = [''k'' \<mapsto> \<lparr>payload = ''7'', expiry = Some 10\<rparr>], faults = []\<rparr> ''k'' 3 60)) ''k'')
       = Some (Some 10)"
    using t2 by (simp add: healthy_def holds_counter_def show_int_7)
  have u: "[0..<2] = [0, 1]" by code_simp
  have w3: "fst (sequentially 2 (\<lambda>s. RedisClient_RateLimiter s ''k'' 3 60) empty_store)
       = [Inr 2, Inr 1]"
    using t3 by (simp add: healthy_empty_store u) (simp add: empty_store_def)
  from w1 w2 w3 show ?thesis by simp
qed

section \<open>A negative expiration\<close>

text \<open>
  Neither limiter guards its expiration. With one that the store refuses, the counting
  limiter returns the error and never creates the key. The fixed-window limiter returns
  the error as well, but its pipeline has run the decrement: a fresh key is left
  holding -1, without a TTL.
\<close>

lemma CountRateLimiter_refused:
  assumes "healthy r" and "expiration < - 1"
  shows "RedisClient_CountRateLimiter r key v decrement expiration
           = (Inl InvalidExpire, r\<lparr>faults := tl (faults r)\<rparr>)"
  using assms
  by (simp add: RedisClient_CountRateLimiter_def Client_SetNX_def round_trip_healthy
      cmd_setnx_def)

lemma RateLimiter_refused:
  assumes "healthy r" and "expiration < - 1" and "kv r key = None"
  shows "RedisClient_RateLimiter r key v expiration
           = (Inl InvalidExpire,
              r\<lparr>faults := tl (faults r),
                kv := (kv r)(key \<mapsto> \<lparr>payload = show_int (- 1), expiry = None\<rparr>)\<rparr>)"
  using assms
  by (simp add: RedisClient_RateLimiter_def Client_Pipelined_def round_trip_healthy
      cmd_setnx_def cmd_decrby_def)

end
